theory Spec2Isabelle
  imports Main
begin

section \<open>JavaScript values, property descriptors and objects\<close>

text \<open>
  The library works by reflection on JavaScript objects, so the embedding starts with the
  part of the object model that the source touches: values, property keys, property
  descriptors, objects with a prototype link and an ordered table of own properties, and a
  heap of such objects addressed by reference.

  Modelling decisions:
  \<^item> the heap is a list of objects and a reference is an index into it; allocation appends,
    so the address of a new object is the length of the heap before the allocation;
  \<^item> every object is an ordinary object (no Proxy), and the built-in prototypes are
    unmodified as far as the reflection functions themselves are concerned;
  \<^item> a descriptor object returned by \<open>Object.getOwnPropertyDescriptor\<close> is a value of type
    \<open>pdesc\<close>: it is a fresh object in JavaScript, so writing its \<open>enumerable\<close> field is a
    functional update of that value;
  \<^item> the payload of a number is never inspected by the code, it is an \<open>int\<close> here.
\<close>

type_synonym addr = nat

datatype val =
    VUndefined
  | VNull
  | VBool bool
  | VNum int
  | VStr string
  | VSym nat
  | VRef addr

datatype pkey = KStr string | KSym nat

text \<open>
  A data descriptor is \<open>{value, writable, enumerable, configurable}\<close>, an accessor descriptor
  is \<open>{get, set, enumerable, configurable}\<close>; an absent getter or setter is \<open>undefined\<close>.
\<close>

datatype pdesc =
    DataDesc val bool bool bool
  | AccessorDesc val val bool bool

fun pd_value :: "pdesc \<Rightarrow> val option" where
  "pd_value (DataDesc v w e c) = Some v"
| "pd_value (AccessorDesc g st e c) = None"

fun pd_writable :: "pdesc \<Rightarrow> bool option" where
  "pd_writable (DataDesc v w e c) = Some w"
| "pd_writable (AccessorDesc g st e c) = None"

fun pd_get :: "pdesc \<Rightarrow> val option" where
  "pd_get (DataDesc v w e c) = None"
| "pd_get (AccessorDesc g st e c) = Some g"

fun pd_set :: "pdesc \<Rightarrow> val option" where
  "pd_set (DataDesc v w e c) = None"
| "pd_set (AccessorDesc g st e c) = Some st"

fun pd_enumerable :: "pdesc \<Rightarrow> bool" where
  "pd_enumerable (DataDesc v w e c) = e"
| "pd_enumerable (AccessorDesc g st e c) = e"

fun pd_configurable :: "pdesc \<Rightarrow> bool" where
  "pd_configurable (DataDesc v w e c) = c"
| "pd_configurable (AccessorDesc g st e c) = c"

text \<open>The assignment \<open>descriptor.enumerable = b\<close>.\<close>

fun set_enumerable :: "pdesc \<Rightarrow> bool \<Rightarrow> pdesc" where
  "set_enumerable (DataDesc v w e c) b = DataDesc v w b c"
| "set_enumerable (AccessorDesc g st e c) b = AccessorDesc g st b c"

text \<open>
  The code of a callable object. The functions of other modules and of the caller are
  \<open>Opaque\<close>; the closures that this library creates carry the variables they capture.
\<close>

datatype fncode =
    Opaque
  | SelflessCurry val
  | ActionsWrapper val
  | ViewsWrapper val
  | CreateStore

record obj =
  obj_proto :: "addr option"
  obj_extensible :: bool
  obj_call :: "fncode option"
  obj_props :: "(pkey \<times> pdesc) list"

type_synonym heap = "obj list"

definition obj_at :: "heap \<Rightarrow> addr \<Rightarrow> obj option" where
  "obj_at h a = (if a < length h then Some (h ! a) else None)"

text \<open>The realm's intrinsic objects sit at the first addresses of the heap.\<close>

definition ObjectPrototype :: addr where "ObjectPrototype = 0"
definition FunctionPrototype :: addr where "FunctionPrototype = 1"
definition BooleanPrototype :: addr where "BooleanPrototype = 2"
definition NumberPrototype :: addr where "NumberPrototype = 3"
definition StringPrototype :: addr where "StringPrototype = 4"
definition SymbolPrototype :: addr where "SymbolPrototype = 5"

section \<open>Completions and the state\<close>

text \<open>
  An operation returns normally, throws, does not return, or is stuck. \<open>Stuck\<close> marks a
  state that is no JavaScript state (a reference to no object, a cyclic prototype chain).
  The state is the heap and a log of the calls made by the modelled code, each with the
  place it was made from; the log is a ghost variable that no operation reads.
\<close>

datatype thrown = TypeError | Thrown val

datatype 'a outcome = Normal 'a | Throws thrown | Diverges | Stuck

datatype site = Provider | Getter | Setter | Original | Create

record jstate =
  heap :: heap
  calls :: "(site \<times> val \<times> val \<times> val list) list"

type_synonym 'a js = "jstate \<Rightarrow> 'a outcome \<times> jstate"

definition js_return :: "'a \<Rightarrow> 'a js" where
  "js_return x s = (Normal x, s)"

definition js_throw :: "thrown \<Rightarrow> 'a js" where
  "js_throw e s = (Throws e, s)"

definition js_bind :: "'a js \<Rightarrow> ('a \<Rightarrow> 'b js) \<Rightarrow> 'b js" where
  "js_bind m f s =
     (case m s of
        (Normal x, s') \<Rightarrow> f x s'
      | (Throws e, s') \<Rightarrow> (Throws e, s')
      | (Diverges, s') \<Rightarrow> (Diverges, s')
      | (Stuck, s') \<Rightarrow> (Stuck, s'))"

text \<open>An operation that reads the heap and changes nothing.\<close>

definition js_read :: "(heap \<Rightarrow> 'a outcome) \<Rightarrow> 'a js" where
  "js_read f s = (f (heap s), s)"

definition alloc :: "obj \<Rightarrow> addr js" where
  "alloc ob s = (Normal (length (heap s)), s\<lparr>heap := heap s @ [ob]\<rparr>)"

text \<open>\<open>Array.prototype.forEach\<close> with a callback that may throw.\<close>

primrec forEach :: "'a list \<Rightarrow> ('a \<Rightarrow> unit js) \<Rightarrow> unit js" where
  "forEach [] f = js_return ()"
| "forEach (x # xs) f = js_bind (f x) (\<lambda>_. forEach xs f)"

section \<open>The reflection built-ins\<close>

fun digit_char :: "nat \<Rightarrow> char" where
  "digit_char n = char_of (48 + n)"

fun decimal :: "nat \<Rightarrow> string" where
  "decimal n = (if n < 10 then [digit_char n] else decimal (n div 10) @ [digit_char (n mod 10)])"

declare decimal.simps [simp del]

text \<open>
  The own properties of a string primitive: one read-only enumerable property per index,
  then \<open>length\<close>.
\<close>

definition string_props :: "string \<Rightarrow> (pkey \<times> pdesc) list" where
  "string_props str =
     map (\<lambda>i. (KStr (decimal i), DataDesc (VStr [str ! i]) False True False)) [0..<length str]
     @ [(KStr ''length'', DataDesc (VNum (int (length str))) False False False)]"

text \<open>
  The own property table that \<open>Object.getOwnPropertyNames\<close> and
  \<open>Object.getOwnPropertyDescriptor\<close> read: they throw on \<open>undefined\<close> and \<open>null\<close> and
  convert any other primitive to an object.
\<close>

fun own_props :: "heap \<Rightarrow> val \<Rightarrow> (pkey \<times> pdesc) list outcome" where
  "own_props h VUndefined = Throws TypeError"
| "own_props h VNull = Throws TypeError"
| "own_props h (VBool b) = Normal []"
| "own_props h (VNum n) = Normal []"
| "own_props h (VSym n) = Normal []"
| "own_props h (VStr str) = Normal (string_props str)"
| "own_props h (VRef a) = (case obj_at h a of None \<Rightarrow> Stuck | Some ob \<Rightarrow> Normal (obj_props ob))"

fun string_keys :: "(pkey \<times> pdesc) list \<Rightarrow> string list" where
  "string_keys [] = []"
| "string_keys ((KStr n, d) # ps) = n # string_keys ps"
| "string_keys ((KSym n, d) # ps) = string_keys ps"

fun map_outcome :: "('a \<Rightarrow> 'b) \<Rightarrow> 'a outcome \<Rightarrow> 'b outcome" where
  "map_outcome f (Normal x) = Normal (f x)"
| "map_outcome f (Throws e) = Throws e"
| "map_outcome f Diverges = Diverges"
| "map_outcome f Stuck = Stuck"

fun outcome_bind :: "'a outcome \<Rightarrow> ('a \<Rightarrow> 'b outcome) \<Rightarrow> 'b outcome" where
  "outcome_bind (Normal x) f = f x"
| "outcome_bind (Throws e) f = Throws e"
| "outcome_bind Diverges f = Diverges"
| "outcome_bind Stuck f = Stuck"

definition getOwnPropertyNames :: "heap \<Rightarrow> val \<Rightarrow> string list outcome" where
  "getOwnPropertyNames h v = map_outcome string_keys (own_props h v)"

definition getOwnPropertyDescriptor :: "heap \<Rightarrow> val \<Rightarrow> string \<Rightarrow> pdesc option outcome" where
  "getOwnPropertyDescriptor h v key = map_outcome (\<lambda>ps. map_of ps (KStr key)) (own_props h v)"

text \<open>
  \<open>Object.defineProperty\<close> with a complete descriptor. A new key is appended when the object
  is extensible; an existing property is replaced when the change is allowed
  (ValidateAndApplyPropertyDescriptor of the language specification).
\<close>

fun redefinable :: "pdesc \<Rightarrow> pdesc \<Rightarrow> bool" where
  "redefinable (DataDesc v w e c) (DataDesc v' w' e' c') =
     (c \<or> (\<not> c' \<and> e' = e \<and> (w \<or> (\<not> w' \<and> v' = v))))"
| "redefinable (AccessorDesc g st e c) (AccessorDesc g' st' e' c') =
     (c \<or> (\<not> c' \<and> e' = e \<and> g' = g \<and> st' = st))"
| "redefinable (DataDesc v w e c) (AccessorDesc g' st' e' c') = c"
| "redefinable (AccessorDesc g st e c) (DataDesc v' w' e' c') = c"

fun replace_prop :: "pkey \<Rightarrow> pdesc \<Rightarrow> (pkey \<times> pdesc) list \<Rightarrow> (pkey \<times> pdesc) list" where
  "replace_prop k d [] = []"
| "replace_prop k d ((k', d') # ps) =
     (if k' = k then (k, d) # ps else (k', d') # replace_prop k d ps)"

definition define_own :: "obj \<Rightarrow> pkey \<Rightarrow> pdesc \<Rightarrow> obj option" where
  "define_own ob k d =
     (case map_of (obj_props ob) k of
        None \<Rightarrow> if obj_extensible ob then Some (ob\<lparr>obj_props := obj_props ob @ [(k, d)]\<rparr>) else None
      | Some cur \<Rightarrow>
          if redefinable cur d then Some (ob\<lparr>obj_props := replace_prop k d (obj_props ob)\<rparr>)
          else None)"

definition defineProperty :: "val \<Rightarrow> string \<Rightarrow> pdesc \<Rightarrow> unit js" where
  "defineProperty target key d s =
     (case target of
        VRef a \<Rightarrow>
          (case obj_at (heap s) a of
             None \<Rightarrow> (Stuck, s)
           | Some ob \<Rightarrow>
               (case define_own ob (KStr key) d of
                  None \<Rightarrow> (Throws TypeError, s)
                | Some ob' \<Rightarrow> (Normal (), s\<lparr>heap := (heap s)[a := ob']\<rparr>)))
      | _ \<Rightarrow> (Throws TypeError, s))"

section \<open>The library: \<open>index.js\<close>\<close>

definition isUndefined :: "val \<Rightarrow> bool" where
  "isUndefined x = (x = VUndefined)"

text \<open>\<open>typeof value === 'object'\<close>: \<open>null\<close>, or an object that is not callable.\<close>

fun typeof_object :: "heap \<Rightarrow> val \<Rightarrow> bool outcome" where
  "typeof_object h VNull = Normal True"
| "typeof_object h (VRef a) =
     (case obj_at h a of None \<Rightarrow> Stuck | Some ob \<Rightarrow> Normal (obj_call ob = None))"
| "typeof_object h v = Normal False"

text \<open>
  \<open>Object.getPrototypeOf\<close>: it throws on \<open>undefined\<close> and \<open>null\<close> and converts any other
  primitive to an object.
\<close>

fun getPrototypeOf :: "heap \<Rightarrow> val \<Rightarrow> val outcome" where
  "getPrototypeOf h VUndefined = Throws TypeError"
| "getPrototypeOf h VNull = Throws TypeError"
| "getPrototypeOf h (VBool b) = Normal (VRef BooleanPrototype)"
| "getPrototypeOf h (VNum n) = Normal (VRef NumberPrototype)"
| "getPrototypeOf h (VSym n) = Normal (VRef SymbolPrototype)"
| "getPrototypeOf h (VStr str) = Normal (VRef StringPrototype)"
| "getPrototypeOf h (VRef a) =
     (case obj_at h a of
        None \<Rightarrow> Stuck
      | Some ob \<Rightarrow> Normal (case obj_proto ob of None \<Rightarrow> VNull | Some p \<Rightarrow> VRef p))"

definition isPlainObject :: "heap \<Rightarrow> val \<Rightarrow> bool outcome" where
  "isPlainObject h v =
     (if v = VNull then Normal False
      else outcome_bind (typeof_object h v) (\<lambda>is_object.
        if \<not> is_object then Normal False
        else outcome_bind (getPrototypeOf h v) (\<lambda>proto.
          Normal (proto = VRef ObjectPrototype \<or> proto = VNull))))"

definition NATIVE_PROPS_NON_ENUMERABLE :: "string list" where
  "NATIVE_PROPS_NON_ENUMERABLE =
     [''__defineGetter__'',
      ''__defineSetter__'',
      ''__proto__'',
      ''__lookupGetter__'',
      ''__lookupSetter__'',
      ''hasOwnProperty'',
      ''propertyIsEnumerable'',
      ''toLocaleString'',
      ''isPrototypeOf'',
      ''toString'',
      ''constructor'',
      ''prototype'',
      ''valueOf'',
      ''arguments'',
      ''caller'',
      ''callee'']"

definition nameIsNotNative :: "string \<Rightarrow> bool" where
  "nameIsNotNative name = (name \<notin> set NATIVE_PROPS_NON_ENUMERABLE)"

definition getOwnPrototypeNames :: "heap \<Rightarrow> val \<Rightarrow> string list outcome" where
  "getOwnPrototypeNames h ob = map_outcome (filter nameIsNotNative) (getOwnPropertyNames h ob)"

text \<open>\<open>Object.create(null)\<close>.\<close>

definition blank_object :: obj where
  "blank_object = \<lparr>obj_proto = None, obj_extensible = True, obj_call = None, obj_props = []\<rparr>"

text \<open>The callback of the \<open>forEach\<close> in \<open>toBlankObj\<close>.\<close>

definition copy_key :: "val \<Rightarrow> val \<Rightarrow> string \<Rightarrow> unit js" where
  "copy_key ob blankObj key =
     js_bind (js_read (\<lambda>h. getOwnPropertyDescriptor h ob key)) (\<lambda>descriptor.
       case descriptor of
         None \<Rightarrow> js_throw TypeError
       | Some d \<Rightarrow> defineProperty blankObj key (set_enumerable d True))"

definition toBlankObj :: "val \<Rightarrow> val js" where
  "toBlankObj ob =
     js_bind (alloc blank_object) (\<lambda>b.
     js_bind (js_read (\<lambda>h. getOwnPrototypeNames h ob)) (\<lambda>keys.
     js_bind (forEach keys (copy_key ob (VRef b))) (\<lambda>_.
     js_return (VRef b))))"


subsection \<open>Calls of functions that the library does not define\<close>

text \<open>
  What a function of the caller or of another module does when it is called is a parameter
  of the model: \<open>call f this args h\<close> is the completion and the heap after the call of the
  function object \<open>f\<close>, for every function, receiver, argument list and heap. Every theorem
  below holds for every such parameter. A call made by the modelled code is logged with the
  place it is made from; calls made inside the callee are the callee's own and not logged.
  Calling a value that is not callable throws a type error before anything is called.
\<close>

type_synonym behaviour = "val \<Rightarrow> val \<Rightarrow> val list \<Rightarrow> heap \<Rightarrow> val outcome \<times> heap"

definition is_callable :: "heap \<Rightarrow> val \<Rightarrow> bool" where
  "is_callable h v =
     (case v of
        VRef a \<Rightarrow> (case obj_at h a of None \<Rightarrow> False | Some ob \<Rightarrow> obj_call ob \<noteq> None)
      | _ \<Rightarrow> False)"

definition invoke :: "behaviour \<Rightarrow> site \<Rightarrow> val \<Rightarrow> val \<Rightarrow> val list \<Rightarrow> val js" where
  "invoke call st f this args s =
     (case f of
        VRef a \<Rightarrow>
          (case obj_at (heap s) a of
             None \<Rightarrow> (Stuck, s)
           | Some ob \<Rightarrow>
               if obj_call ob = None then (Throws TypeError, s)
               else (case call f this args (heap s) of
                       (r, h') \<Rightarrow> (r, \<lparr>heap = h', calls = calls s @ [(st, f, this, args)]\<rparr>)))
      | _ \<Rightarrow> (Throws TypeError, s))"

text \<open>
  The search of the prototype chain for a property, from the object at \<open>a\<close>. A chain in a
  heap of \<open>n\<close> objects has at most \<open>n\<close> links unless it is cyclic.
\<close>

fun find_prop :: "nat \<Rightarrow> heap \<Rightarrow> addr \<Rightarrow> pkey \<Rightarrow> pdesc option outcome" where
  "find_prop 0 h a k = Stuck"
| "find_prop (Suc n) h a k =
     (case obj_at h a of
        None \<Rightarrow> Stuck
      | Some ob \<Rightarrow>
          (case map_of (obj_props ob) k of
             Some d \<Rightarrow> Normal (Some d)
           | None \<Rightarrow>
               (case obj_proto ob of
                  None \<Rightarrow> Normal None
                | Some p \<Rightarrow> find_prop n h p k)))"

text \<open>
  Where the search starts for a value: at the object itself, or at the prototype of the
  wrapper of a primitive whose own properties did not match.
\<close>

fun find_for :: "heap \<Rightarrow> val \<Rightarrow> pkey \<Rightarrow> pdesc option outcome" where
  "find_for h VUndefined k = Throws TypeError"
| "find_for h VNull k = Throws TypeError"
| "find_for h (VBool b) k = find_prop (length h) h BooleanPrototype k"
| "find_for h (VNum n) k = find_prop (length h) h NumberPrototype k"
| "find_for h (VSym n) k = find_prop (length h) h SymbolPrototype k"
| "find_for h (VStr str) k =
     (case map_of (string_props str) k of
        Some d \<Rightarrow> Normal (Some d)
      | None \<Rightarrow> find_prop (length h) h StringPrototype k)"
| "find_for h (VRef a) k = find_prop (length h) h a k"

text \<open>
  A property read \<open>v.name\<close>: a data property gives its value, an accessor property calls its
  getter with the receiver as \<open>this\<close>, a missing property reads as \<open>undefined\<close>.
\<close>

definition get_prop :: "behaviour \<Rightarrow> val \<Rightarrow> string \<Rightarrow> val js" where
  "get_prop call v name s =
     (case find_for (heap s) v (KStr name) of
        Normal None \<Rightarrow> (Normal VUndefined, s)
      | Normal (Some (DataDesc x w e c)) \<Rightarrow> (Normal x, s)
      | Normal (Some (AccessorDesc g st e c)) \<Rightarrow>
          if g = VUndefined then (Normal VUndefined, s) else invoke call Getter g v [] s
      | Throws e \<Rightarrow> (Throws e, s)
      | Diverges \<Rightarrow> (Diverges, s)
      | Stuck \<Rightarrow> (Stuck, s))"

text \<open>
  An assignment \<open>target.name = v\<close> in non-strict code: an accessor property found on the
  chain has its setter called; otherwise the receiver's own data property is written or
  created. An assignment that is not allowed (a read-only property, no setter, an object that
  is not extensible, a primitive receiver) changes nothing and is not an error.
\<close>

definition put_own :: "obj \<Rightarrow> pkey \<Rightarrow> val \<Rightarrow> obj" where
  "put_own ob k v =
     (case map_of (obj_props ob) k of
        Some (DataDesc v0 w e c) \<Rightarrow>
          if w then ob\<lparr>obj_props := replace_prop k (DataDesc v w e c) (obj_props ob)\<rparr> else ob
      | Some (AccessorDesc g st e c) \<Rightarrow> ob
      | None \<Rightarrow>
          if obj_extensible ob
          then ob\<lparr>obj_props := obj_props ob @ [(k, DataDesc v True True True)]\<rparr>
          else ob)"

definition write_receiver :: "val \<Rightarrow> pkey \<Rightarrow> val \<Rightarrow> unit js" where
  "write_receiver target k v s =
     (case target of
        VRef a \<Rightarrow>
          (case obj_at (heap s) a of
             None \<Rightarrow> (Stuck, s)
           | Some ob \<Rightarrow> (Normal (), s\<lparr>heap := (heap s)[a := put_own ob k v]\<rparr>))
      | _ \<Rightarrow> (Normal (), s))"

definition set_prop :: "behaviour \<Rightarrow> val \<Rightarrow> string \<Rightarrow> val \<Rightarrow> unit js" where
  "set_prop call target name v s =
     (case find_for (heap s) target (KStr name) of
        Normal None \<Rightarrow> write_receiver target (KStr name) v s
      | Normal (Some (DataDesc x w e c)) \<Rightarrow>
          if w then write_receiver target (KStr name) v s else (Normal (), s)
      | Normal (Some (AccessorDesc g st e c)) \<Rightarrow>
          if st = VUndefined then (Normal (), s)
          else js_bind (invoke call Setter st target [v]) (\<lambda>_. js_return ()) s
      | Throws e \<Rightarrow> (Throws e, s)
      | Diverges \<Rightarrow> (Diverges, s)
      | Stuck \<Rightarrow> (Stuck, s))"

text \<open>\<open>name in x\<close>: a type error unless \<open>x\<close> is an object.\<close>

definition in_operator :: "string \<Rightarrow> val \<Rightarrow> bool js" where
  "in_operator name x s =
     (case x of
        VRef a \<Rightarrow> (map_outcome (\<lambda>d. d \<noteq> None) (find_prop (length (heap s)) (heap s) a (KStr name)), s)
      | _ \<Rightarrow> (Throws TypeError, s))"

text \<open>A missing argument reads as \<open>undefined\<close>.\<close>

definition arg :: "val list \<Rightarrow> nat \<Rightarrow> val" where
  "arg args i = (if i < length args then args ! i else VUndefined)"

text \<open>
  A \<open>function\<close> expression allocates the function object, with its \<open>length\<close>, \<open>name\<close> and
  \<open>prototype\<close> properties, and the object that \<open>prototype\<close> refers to.
\<close>

definition make_function :: "fncode \<Rightarrow> string \<Rightarrow> nat \<Rightarrow> val js" where
  "make_function c name len s =
     (let f = length (heap s) in
      (Normal (VRef f),
       s\<lparr>heap := heap s @
          [\<lparr>obj_proto = Some FunctionPrototype, obj_extensible = True, obj_call = Some c,
            obj_props =
              [(KStr ''length'', DataDesc (VNum (int len)) False False True),
               (KStr ''name'', DataDesc (VStr name) False False True),
               (KStr ''prototype'', DataDesc (VRef (Suc f)) True False False)]\<rparr>,
           \<lparr>obj_proto = Some ObjectPrototype, obj_extensible = True, obj_call = None,
            obj_props = [(KStr ''constructor'', DataDesc (VRef f) True False True)]\<rparr>]\<rparr>))"

subsection \<open>\<open>thisless\<close> and \<open>selfless\<close>\<close>

definition thisless :: "behaviour \<Rightarrow> val \<Rightarrow> val js" where
  "thisless call cls =
     js_bind (js_read (\<lambda>h. isPlainObject h cls)) (\<lambda>plain.
       if \<not> plain then js_bind (get_prop call cls ''prototype'') toBlankObj
       else js_return cls)"

text \<open>The body of the closure \<open>selflessCurry\<close>, which captures \<open>fn\<close>.\<close>

definition selflessCurry :: "behaviour \<Rightarrow> val \<Rightarrow> val list \<Rightarrow> val js" where
  "selflessCurry call fn args =
     js_bind (invoke call Provider fn VUndefined [arg args 0]) (\<lambda>cls. thisless call cls)"

text \<open>\<open>selfless\<close> reads \<open>arguments.length\<close>, so it takes the list of its actual arguments.\<close>

definition selfless :: "behaviour \<Rightarrow> val list \<Rightarrow> val js" where
  "selfless call args =
     (if length args = 1 then make_function (SelflessCurry (arg args 0)) ''selflessCurry'' 1
      else js_bind (invoke call Provider (arg args 0) VUndefined [arg args 1])
             (\<lambda>cls. thisless call cls))"

text \<open>
  \<open>new f(...)\<close>: a value that is not callable is not a constructor. What a callable object
  does when constructed is a parameter.
\<close>

definition construct :: "behaviour \<Rightarrow> val \<Rightarrow> val list \<Rightarrow> val js" where
  "construct ctor f args s =
     (case f of
        VRef a \<Rightarrow>
          (case obj_at (heap s) a of
             None \<Rightarrow> (Stuck, s)
           | Some ob \<Rightarrow>
               if obj_call ob = None then (Throws TypeError, s)
               else (case ctor f VUndefined args (heap s) of (r, h') \<Rightarrow> (r, s\<lparr>heap := h'\<rparr>)))
      | _ \<Rightarrow> (Throws TypeError, s))"

text \<open>Reading the reflection results of an object in a heap.\<close>

definition own_keys :: "obj \<Rightarrow> pkey set" where
  "own_keys ob = set (map fst (obj_props ob))"

definition descriptor_of :: "obj \<Rightarrow> pkey \<Rightarrow> pdesc option" where
  "descriptor_of ob k = map_of (obj_props ob) k"

definition own_enumerable_keys :: "obj \<Rightarrow> pkey set" where
  "own_enumerable_keys ob =
     Set.filter (\<lambda>k. case descriptor_of ob k of None \<Rightarrow> False | Some d \<Rightarrow> pd_enumerable d)
       (own_keys ob)"


section \<open>The integration patch: \<open>statetree.js\<close>\<close>

text \<open>
  \<open>f.call(thisArg, x)\<close> calls \<open>f\<close> with the given receiver; \<open>Function.prototype.call\<close> is taken
  to be the built-in one. The receiver \<open>this\<close> of a closure body below is the one the body sees.
  Objects that nothing refers to after the statement that creates them (the array of the
  destructuring assignment) are not allocated.
\<close>

definition actionsWrapper :: "behaviour \<Rightarrow> val \<Rightarrow> val \<Rightarrow> val list \<Rightarrow> val js" where
  "actionsWrapper call actions this args =
     js_bind (selfless call [arg args 0]) (\<lambda>selflessActions.
       invoke call Original actions this [selflessActions])"

definition viewsWrapper :: "behaviour \<Rightarrow> val \<Rightarrow> val \<Rightarrow> val list \<Rightarrow> val js" where
  "viewsWrapper call views this args =
     js_bind (selfless call [arg args 0]) (\<lambda>selflessViews.
       invoke call Original views this [selflessViews])"

definition createStore :: "behaviour \<Rightarrow> val \<Rightarrow> val list \<Rightarrow> val js" where
  "createStore call this args =
     (let data = arg args 0 in
      js_bind (get_prop call this ''create'') (\<lambda>create.
      js_bind (invoke call Create create this (if isUndefined data then [] else [data])) (\<lambda>state.
      js_bind (alloc \<lparr>obj_proto = Some ObjectPrototype, obj_extensible = True, obj_call = None,
                 obj_props =
                   [(KStr ''model'', DataDesc this True True True),
                    (KStr ''state'', DataDesc state True True True),
                    (KStr ''store'', DataDesc state True True True)]\<rparr>) (\<lambda>r.
      js_return (VRef r)))))"

definition hackObjectTypePrototype :: "behaviour \<Rightarrow> val \<Rightarrow> val js" where
  "hackObjectTypePrototype call x =
     js_bind (in_operator ''createStore'' x) (\<lambda>present.
       if present then js_return VUndefined
       else
         js_bind (js_read (\<lambda>h. getPrototypeOf h x)) (\<lambda>ObjectTypeProto.
         js_bind (get_prop call ObjectTypeProto ''actions'') (\<lambda>actions.
         js_bind (get_prop call ObjectTypeProto ''views'') (\<lambda>views.
         js_bind (make_function (ActionsWrapper actions) [] 1) (\<lambda>f1.
         js_bind (set_prop call ObjectTypeProto ''actions'' f1) (\<lambda>_.
         js_bind (make_function (ViewsWrapper views) [] 1) (\<lambda>f2.
         js_bind (set_prop call ObjectTypeProto ''views'' f2) (\<lambda>_.
         js_bind (make_function CreateStore [] 0) (\<lambda>f3.
         js_bind (set_prop call ObjectTypeProto ''createStore'' f3) (\<lambda>_.
         js_return VUndefined))))))))))"

text \<open>
  Calling a function object: a closure of this library runs its body with the variables it
  captured, any other function is the parameter \<open>call\<close>.
\<close>

definition call_function :: "behaviour \<Rightarrow> val \<Rightarrow> val \<Rightarrow> val list \<Rightarrow> val js" where
  "call_function call f this args s =
     (case f of
        VRef a \<Rightarrow>
          (case obj_at (heap s) a of
             None \<Rightarrow> (Stuck, s)
           | Some ob \<Rightarrow>
               (case obj_call ob of
                  None \<Rightarrow> (Throws TypeError, s)
                | Some Opaque \<Rightarrow>
                    (case call f this args (heap s) of (r, h') \<Rightarrow> (r, s\<lparr>heap := h'\<rparr>))
                | Some (SelflessCurry fn) \<Rightarrow> selflessCurry call fn args s
                | Some (ActionsWrapper actions) \<Rightarrow> actionsWrapper call actions this args s
                | Some (ViewsWrapper views) \<Rightarrow> viewsWrapper call views this args s
                | Some CreateStore \<Rightarrow> createStore call this args s))
      | _ \<Rightarrow> (Throws TypeError, s))"

section \<open>A concrete heap\<close>

text \<open>
  The realm's prototypes, the class of the README (a getter \<open>aboot\<close> and a method \<open>moose\<close>),
  a provider that returns the class, a context object, a provider that throws, and a model
  type with the entry points \<open>actions\<close>, \<open>views\<close> and \<open>create\<close> and a model built from it.
\<close>

definition mk_obj :: "addr option \<Rightarrow> fncode option \<Rightarrow> (pkey \<times> pdesc) list \<Rightarrow> obj" where
  "mk_obj p c ps = \<lparr>obj_proto = p, obj_extensible = True, obj_call = c, obj_props = ps\<rparr>"

definition fn_props :: "nat \<Rightarrow> string \<Rightarrow> (pkey \<times> pdesc) list" where
  "fn_props len name =
     [(KStr ''length'', DataDesc (VNum (int len)) False False True),
      (KStr ''name'', DataDesc (VStr name) False False True)]"

definition demo_heap :: heap where
  "demo_heap =
     [mk_obj None None [],
      mk_obj (Some 0) (Some Opaque) [],
      mk_obj (Some 0) None [],
      mk_obj (Some 0) None [],
      mk_obj (Some 0) None [],
      mk_obj (Some 0) None [],
      mk_obj (Some 1) (Some Opaque)
        (fn_props 0 ''ThisLessEd'' @ [(KStr ''prototype'', DataDesc (VRef 7) False False False)]),
      mk_obj (Some 0) None
        [(KStr ''constructor'', DataDesc (VRef 6) True False True),
         (KStr ''aboot'', AccessorDesc (VRef 8) VUndefined False True),
         (KStr ''moose'', DataDesc (VRef 9) True False True)],
      mk_obj (Some 1) (Some Opaque) (fn_props 0 ''get aboot''),
      mk_obj (Some 1) (Some Opaque) (fn_props 0 ''moose''),
      mk_obj (Some 1) (Some Opaque) (fn_props 1 ''getSelflessed''),
      mk_obj (Some 0) None [(KStr ''igloo'', DataDesc (VStr ''igloomoose'') True True True)],
      mk_obj (Some 1) (Some Opaque) (fn_props 1 ''failing''),
      mk_obj (Some 0) None
        [(KStr ''actions'', DataDesc (VRef 14) True False True),
         (KStr ''views'', DataDesc (VRef 15) True False True),
         (KStr ''create'', DataDesc (VRef 16) True False True)],
      mk_obj (Some 1) (Some Opaque) (fn_props 1 ''actions''),
      mk_obj (Some 1) (Some Opaque) (fn_props 1 ''views''),
      mk_obj (Some 1) (Some Opaque) (fn_props 1 ''create''),
      mk_obj (Some 13) None []]"

definition demo_state :: jstate where
  "demo_state = \<lparr>heap = demo_heap, calls = []\<rparr>"

definition demo_call :: behaviour where
  "demo_call f this args h =
     (if f = VRef 10 then (Normal (VRef 6), h)
      else if f = VRef 12 then (Throws (Thrown (VStr ''boom'')), h)
      else (Normal VUndefined, h))"

section \<open>The flattener \<open>toBlankObj\<close>\<close>

lemma redefinable_same: "redefinable d d"
  by (cases d) auto

lemma map_of_replace_prop:
  "map_of ps k = Some cur \<Longrightarrow> map_of (replace_prop k d ps) = (map_of ps)(k \<mapsto> d)"
  by (induction ps) (auto simp: fun_eq_iff)

lemma map_fst_replace_prop: "map fst (replace_prop k d ps) = map fst ps"
  by (induction ps) auto

lemma keys_replace_prop: "fst ` set (replace_prop k d ps) = fst ` set ps"
  using map_fst_replace_prop [of k d ps] by (metis list.set_map)

lemma define_own_fields:
  assumes "define_own ob k d = Some ob'"
  shows "obj_proto ob' = obj_proto ob \<and> obj_call ob' = obj_call ob
    \<and> obj_extensible ob' = obj_extensible ob"
  using assms by (auto simp: define_own_def split: option.splits if_splits)

lemma map_of_snoc:
  "map_of ps k = None \<Longrightarrow> map_of (ps @ [(k, d)]) = (map_of ps)(k \<mapsto> d)"
  by (auto simp: fun_eq_iff map_add_def split: option.splits)

lemma define_own_map_of:
  assumes "define_own ob k d = Some ob'"
  shows "map_of (obj_props ob') = (map_of (obj_props ob))(k \<mapsto> d)"
  using assms
  by (auto simp: define_own_def map_of_replace_prop map_of_snoc simp del: map_of_append
      split: option.splits if_splits)

lemma define_own_keys:
  assumes "define_own ob k d = Some ob'"
  shows "fst ` set (obj_props ob') = insert k (fst ` set (obj_props ob))"
proof -
  have "dom (map_of (obj_props ob')) = insert k (dom (map_of (obj_props ob)))"
    by (simp add: define_own_map_of [OF assms])
  then show ?thesis by (simp add: dom_map_of_conv_image_fst)
qed

lemma define_own_total:
  assumes "obj_extensible ob" "map_of (obj_props ob) k = None \<or> map_of (obj_props ob) k = Some d"
  shows "\<exists>ob'. define_own ob k d = Some ob'"
  using assms by (auto simp: define_own_def redefinable_same split: option.splits)

lemma string_keys_iff: "n \<in> set (string_keys ps) \<longleftrightarrow> KStr n \<in> fst ` set ps"
  by (induction ps rule: string_keys.induct) auto

lemma forEach_invariant:
  assumes "\<And>x s. x \<in> set xs \<Longrightarrow> I s \<Longrightarrow> I (snd (f x s))" and "I s"
  shows "I (snd (forEach xs f s))"
  using assms
proof (induction xs arbitrary: s)
  case Nil
  then show ?case by (simp add: js_return_def)
next
  case (Cons x xs)
  have step: "I (snd (f x s))" using Cons.prems by simp
  obtain r s' where fx: "f x s = (r, s')" by (cases "f x s")
  show ?case
  proof (cases r)
    case (Normal u)
    have "I (snd (forEach xs f s'))"
      using Cons.IH [of s'] Cons.prems(1) step fx by simp
    then show ?thesis using fx Normal by (simp add: js_bind_def)
  qed (use fx step in \<open>simp_all add: js_bind_def\<close>)
qed

lemma obj_at_snoc_last: "obj_at (h0 @ [B]) (length h0) = Some B"
  by (simp add: obj_at_def)

lemma obj_at_snoc_old: "a < length h0 \<Longrightarrow> obj_at (h0 @ [B]) a = Some (h0 ! a)"
  by (simp add: obj_at_def nth_append)

lemma copy_key_cases:
  assumes "heap s = h0 @ [B]"
  shows "snd (copy_key ob (VRef (length h0)) key s) = s
    \<or> (\<exists>d B'. define_own B (KStr key) d = Some B'
          \<and> copy_key ob (VRef (length h0)) key s = (Normal (), s\<lparr>heap := h0 @ [B']\<rparr>))"
proof (cases "getOwnPropertyDescriptor (heap s) ob key")
  case (Normal dopt)
  show ?thesis
  proof (cases dopt)
    case None
    then show ?thesis using Normal
      by (simp add: copy_key_def js_bind_def js_read_def js_throw_def)
  next
    case (Some d)
    show ?thesis
    proof (cases "define_own B (KStr key) (set_enumerable d True)")
      case None
      then show ?thesis using Normal Some assms
        by (simp add: copy_key_def js_bind_def js_read_def defineProperty_def obj_at_snoc_last)
    next
      case (Some B')
      then have "copy_key ob (VRef (length h0)) key s = (Normal (), s\<lparr>heap := h0 @ [B']\<rparr>)"
        using Normal \<open>dopt = Some d\<close> assms
        by (simp add: copy_key_def js_bind_def js_read_def defineProperty_def obj_at_snoc_last)
      then show ?thesis using Some by blast
    qed
  qed
qed (simp_all add: copy_key_def js_bind_def js_read_def)

lemma copy_key_exact:
  assumes hs: "heap s = h0 @ [B]" and a: "a < length h0"
    and src: "map_of (obj_props (h0 ! a)) (KStr key) = Some d"
    and ext: "obj_extensible B"
    and cur: "map_of (obj_props B) (KStr key) = None
      \<or> map_of (obj_props B) (KStr key) = Some (set_enumerable d True)"
  shows "\<exists>B'. define_own B (KStr key) (set_enumerable d True) = Some B'
    \<and> copy_key (VRef a) (VRef (length h0)) key s = (Normal (), s\<lparr>heap := h0 @ [B']\<rparr>)"
proof -
  obtain B' where def: "define_own B (KStr key) (set_enumerable d True) = Some B'"
    using define_own_total [OF ext cur] by blast
  have "getOwnPropertyDescriptor (heap s) (VRef a) key = Normal (Some d)"
    using hs a src by (simp add: getOwnPropertyDescriptor_def obj_at_snoc_old)
  then have "copy_key (VRef a) (VRef (length h0)) key s = (Normal (), s\<lparr>heap := h0 @ [B']\<rparr>)"
    using hs def
    by (simp add: copy_key_def js_bind_def js_read_def defineProperty_def obj_at_snoc_last)
  then show ?thesis using def by blast
qed

lemma forEach_copy_exact:
  assumes a: "a < length h0"
    and src: "\<forall>k\<in>set ks. map_of (obj_props (h0 ! a)) (KStr k) \<noteq> None"
  shows "heap s = h0 @ [B] \<Longrightarrow> obj_extensible B \<Longrightarrow>
    (\<forall>k\<in>set ks. map_of (obj_props B) (KStr k) = None
        \<or> map_of (obj_props B) (KStr k)
            = map_option (\<lambda>d. set_enumerable d True) (map_of (obj_props (h0 ! a)) (KStr k))) \<Longrightarrow>
    \<exists>B'. forEach ks (copy_key (VRef a) (VRef (length h0))) s = (Normal (), s\<lparr>heap := h0 @ [B']\<rparr>)
      \<and> obj_proto B' = obj_proto B \<and> obj_call B' = obj_call B
      \<and> map_of (obj_props B') =
          (\<lambda>k. if k \<in> KStr ` set ks
               then map_option (\<lambda>d. set_enumerable d True) (map_of (obj_props (h0 ! a)) k)
               else map_of (obj_props B) k)"
  using src
proof (induction ks arbitrary: s B)
  case Nil
  have "s = s\<lparr>heap := h0 @ [B]\<rparr>" using Nil.prems(1) by simp
  then show ?case by (auto simp: js_return_def intro!: exI [of _ B])
next
  case (Cons k ks)
  obtain d where d: "map_of (obj_props (h0 ! a)) (KStr k) = Some d"
    using Cons.prems(4) by auto
  have cur: "map_of (obj_props B) (KStr k) = None
      \<or> map_of (obj_props B) (KStr k) = Some (set_enumerable d True)"
    using Cons.prems(3) d by auto
  obtain B1 where B1: "define_own B (KStr k) (set_enumerable d True) = Some B1"
    and step: "copy_key (VRef a) (VRef (length h0)) k s = (Normal (), s\<lparr>heap := h0 @ [B1]\<rparr>)"
    using copy_key_exact [OF Cons.prems(1) a d Cons.prems(2) cur] by blast
  have m1: "map_of (obj_props B1) = (map_of (obj_props B))(KStr k \<mapsto> set_enumerable d True)"
    by (rule define_own_map_of [OF B1])
  have f1: "obj_proto B1 = obj_proto B \<and> obj_call B1 = obj_call B
      \<and> obj_extensible B1 = obj_extensible B"
    by (rule define_own_fields [OF B1])
  let ?s1 = "s\<lparr>heap := h0 @ [B1]\<rparr>"
  have pre: "\<forall>k'\<in>set ks. map_of (obj_props B1) (KStr k') = None
        \<or> map_of (obj_props B1) (KStr k')
            = map_option (\<lambda>d. set_enumerable d True) (map_of (obj_props (h0 ! a)) (KStr k'))"
    using Cons.prems(3) m1 d by auto
  obtain B' where run: "forEach ks (copy_key (VRef a) (VRef (length h0))) ?s1
        = (Normal (), ?s1\<lparr>heap := h0 @ [B']\<rparr>)"
    and fB': "obj_proto B' = obj_proto B1 \<and> obj_call B' = obj_call B1"
    and mB': "map_of (obj_props B') =
          (\<lambda>k. if k \<in> KStr ` set ks
               then map_option (\<lambda>d. set_enumerable d True) (map_of (obj_props (h0 ! a)) k)
               else map_of (obj_props B1) k)"
    using Cons.IH [of ?s1 B1] pre f1 Cons.prems(2,4) by auto
  have "forEach (k # ks) (copy_key (VRef a) (VRef (length h0))) s
      = (Normal (), s\<lparr>heap := h0 @ [B']\<rparr>)"
    using step run by (simp add: js_bind_def)
  moreover have "map_of (obj_props B') =
          (\<lambda>k'. if k' \<in> KStr ` set (k # ks)
               then map_option (\<lambda>d. set_enumerable d True) (map_of (obj_props (h0 ! a)) k')
               else map_of (obj_props B) k')"
    using mB' m1 d by (auto simp: fun_eq_iff)
  ultimately show ?case using fB' f1 by auto
qed

lemma toBlankObj_unfold:
  "toBlankObj ob s =
     (case getOwnPrototypeNames (heap s @ [blank_object]) ob of
        Normal keys \<Rightarrow>
          (case forEach keys (copy_key ob (VRef (length (heap s))))
                  (s\<lparr>heap := heap s @ [blank_object]\<rparr>) of
             (Normal u, s') \<Rightarrow> (Normal (VRef (length (heap s))), s')
           | (Throws e, s') \<Rightarrow> (Throws e, s')
           | (Diverges, s') \<Rightarrow> (Diverges, s')
           | (Stuck, s') \<Rightarrow> (Stuck, s'))
      | Throws e \<Rightarrow> (Throws e, s\<lparr>heap := heap s @ [blank_object]\<rparr>)
      | Diverges \<Rightarrow> (Diverges, s\<lparr>heap := heap s @ [blank_object]\<rparr>)
      | Stuck \<Rightarrow> (Stuck, s\<lparr>heap := heap s @ [blank_object]\<rparr>))"
  by (simp add: toBlankObj_def js_bind_def alloc_def js_read_def js_return_def
      split: outcome.splits prod.splits)

lemma copy_key_blank_inv:
  assumes key: "nameIsNotNative key"
    and inv: "\<exists>B. heap s = h0 @ [B] \<and> calls s = c0 \<and> obj_proto B = None \<and> obj_call B = None
      \<and> (\<forall>k\<in>fst ` set (obj_props B). \<exists>n. k = KStr n \<and> nameIsNotNative n)"
  shows "\<exists>B. heap (snd (copy_key ob (VRef (length h0)) key s)) = h0 @ [B]
      \<and> calls (snd (copy_key ob (VRef (length h0)) key s)) = c0
      \<and> obj_proto B = None \<and> obj_call B = None
      \<and> (\<forall>k\<in>fst ` set (obj_props B). \<exists>n. k = KStr n \<and> nameIsNotNative n)"
proof -
  obtain B where B: "heap s = h0 @ [B]" "calls s = c0" "obj_proto B = None" "obj_call B = None"
    "\<forall>k\<in>fst ` set (obj_props B). \<exists>n. k = KStr n \<and> nameIsNotNative n"
    using inv by blast
  from copy_key_cases [OF B(1), of ob key]
  show ?thesis
  proof
    assume "snd (copy_key ob (VRef (length h0)) key s) = s"
    then show ?thesis using B by auto
  next
    assume "\<exists>d B'. define_own B (KStr key) d = Some B'
      \<and> copy_key ob (VRef (length h0)) key s = (Normal (), s\<lparr>heap := h0 @ [B']\<rparr>)"
    then obtain d B' where def: "define_own B (KStr key) d = Some B'"
      and run: "copy_key ob (VRef (length h0)) key s = (Normal (), s\<lparr>heap := h0 @ [B']\<rparr>)"
      by blast
    have "obj_proto B' = None \<and> obj_call B' = None"
      using define_own_fields [OF def] B by simp
    moreover have "\<forall>k\<in>fst ` set (obj_props B'). \<exists>n. k = KStr n \<and> nameIsNotNative n"
      using define_own_keys [OF def] B(5) key by auto
    ultimately show ?thesis using run B(2) by auto
  qed
qed

lemma toBlankObj_snd:
  "snd (toBlankObj ob s) =
     (case getOwnPrototypeNames (heap s @ [blank_object]) ob of
        Normal keys \<Rightarrow>
          snd (forEach keys (copy_key ob (VRef (length (heap s))))
                 (s\<lparr>heap := heap s @ [blank_object]\<rparr>))
      | _ \<Rightarrow> s\<lparr>heap := heap s @ [blank_object]\<rparr>)"
  by (simp add: toBlankObj_unfold split: outcome.splits prod.splits)

lemma toBlankObj_blank:
  "\<exists>B. heap (snd (toBlankObj ob s)) = heap s @ [B] \<and> calls (snd (toBlankObj ob s)) = calls s
     \<and> obj_proto B = None \<and> obj_call B = None
     \<and> (\<forall>k\<in>fst ` set (obj_props B). \<exists>n. k = KStr n \<and> nameIsNotNative n)"
proof (cases "getOwnPrototypeNames (heap s @ [blank_object]) ob")
  case (Normal keys)
  let ?I = "\<lambda>s' :: jstate. \<exists>B. heap s' = heap s @ [B] \<and> calls s' = calls s
     \<and> obj_proto B = None \<and> obj_call B = None
     \<and> (\<forall>k\<in>fst ` set (obj_props B). \<exists>n. k = KStr n \<and> nameIsNotNative n)"
  have keys: "\<forall>k\<in>set keys. nameIsNotNative k"
    using Normal
    by (cases "own_props (heap s @ [blank_object]) ob")
      (auto simp: getOwnPrototypeNames_def getOwnPropertyNames_def)
  have start: "?I (s\<lparr>heap := heap s @ [blank_object]\<rparr>)"
    by (simp add: blank_object_def)
  have "?I (snd (forEach keys (copy_key ob (VRef (length (heap s))))
                 (s\<lparr>heap := heap s @ [blank_object]\<rparr>)))"
  proof (rule forEach_invariant [where I = ?I])
    fix x s' assume "x \<in> set keys" and "?I s'"
    then show "?I (snd (copy_key ob (VRef (length (heap s))) x s'))"
      using copy_key_blank_inv [of x s' "heap s" "calls s" ob] keys by blast
  qed (rule start)
  then show ?thesis using Normal by (simp add: toBlankObj_snd)
qed (simp_all add: toBlankObj_snd blank_object_def)

lemma toBlankObj_result:
  "fst (toBlankObj ob s) = Normal r \<Longrightarrow> r = VRef (length (heap s))"
  by (auto simp: toBlankObj_unfold split: outcome.splits prod.splits)

lemma set_enumerable_fields:
  "pd_enumerable (set_enumerable d True) \<and> pd_value (set_enumerable d True) = pd_value d
   \<and> pd_get (set_enumerable d True) = pd_get d \<and> pd_set (set_enumerable d True) = pd_set d
   \<and> pd_writable (set_enumerable d True) = pd_writable d
   \<and> pd_configurable (set_enumerable d True) = pd_configurable d"
  by (cases d) simp_all

lemma nameIsNotNative_iff: "nameIsNotNative n \<longleftrightarrow> n \<notin> set NATIVE_PROPS_NON_ENUMERABLE"
  by (simp add: nameIsNotNative_def)

lemma toBlankObj_of_object:
  assumes a: "a < length (heap s)"
  shows "\<exists>B. toBlankObj (VRef a) s = (Normal (VRef (length (heap s))), s\<lparr>heap := heap s @ [B]\<rparr>)
    \<and> obj_proto B = None \<and> obj_call B = None
    \<and> map_of (obj_props B) =
        (\<lambda>k. if k \<in> KStr ` {n. KStr n \<in> fst ` set (obj_props (heap s ! a)) \<and> nameIsNotNative n}
             then map_option (\<lambda>d. set_enumerable d True) (map_of (obj_props (heap s ! a)) k)
             else None)"
proof -
  let ?ps = "obj_props (heap s ! a)"
  let ?ks = "filter nameIsNotNative (string_keys ?ps)"
  let ?s1 = "s\<lparr>heap := heap s @ [blank_object]\<rparr>"
  have names: "getOwnPrototypeNames (heap s @ [blank_object]) (VRef a) = Normal ?ks"
    using a by (simp add: getOwnPrototypeNames_def getOwnPropertyNames_def obj_at_snoc_old)
  have src: "\<forall>k\<in>set ?ks. map_of ?ps (KStr k) \<noteq> None"
    by (auto simp: string_keys_iff map_of_eq_None_iff)
  have "\<exists>B'. forEach ?ks (copy_key (VRef a) (VRef (length (heap s)))) ?s1
        = (Normal (), ?s1\<lparr>heap := heap s @ [B']\<rparr>)
      \<and> obj_proto B' = obj_proto blank_object \<and> obj_call B' = obj_call blank_object
      \<and> map_of (obj_props B') =
          (\<lambda>k. if k \<in> KStr ` set ?ks
               then map_option (\<lambda>d. set_enumerable d True) (map_of ?ps k)
               else map_of (obj_props blank_object) k)"
    by (rule forEach_copy_exact [OF a src]) (simp_all add: blank_object_def)
  then have "\<exists>B'. forEach ?ks (copy_key (VRef a) (VRef (length (heap s)))) ?s1
        = (Normal (), s\<lparr>heap := heap s @ [B']\<rparr>)
      \<and> obj_proto B' = None \<and> obj_call B' = None
      \<and> map_of (obj_props B') =
          (\<lambda>k. if k \<in> KStr ` set ?ks
               then map_option (\<lambda>d. set_enumerable d True) (map_of ?ps k)
               else None)"
    by (simp add: blank_object_def cong: if_cong)
  then obtain B' where run: "forEach ?ks (copy_key (VRef a) (VRef (length (heap s)))) ?s1
        = (Normal (), s\<lparr>heap := heap s @ [B']\<rparr>)"
    and f: "obj_proto B' = None" "obj_call B' = None"
    and m: "map_of (obj_props B') =
          (\<lambda>k. if k \<in> KStr ` set ?ks
               then map_option (\<lambda>d. set_enumerable d True) (map_of ?ps k)
               else None)"
    by blast
  have "toBlankObj (VRef a) s = (Normal (VRef (length (heap s))), s\<lparr>heap := heap s @ [B']\<rparr>)"
    using names run by (simp add: toBlankObj_unfold)
  moreover have "set ?ks = {n. KStr n \<in> fst ` set ?ps \<and> nameIsNotNative n}"
    by (auto simp: string_keys_iff)
  ultimately show ?thesis using f m by auto
qed

text \<open>
  Claim C1. For an object \<open>obj\<close> of the heap, \<open>toBlankObj(obj)\<close> returns a reference to a
  newly allocated object (its address was not in use before the call, and the heap is
  otherwise as before) that has no prototype. The own properties of the new object are the own
  string-keyed properties of \<open>obj\<close> whose names are not in \<open>NATIVE_PROPS_NON_ENUMERABLE\<close>, all of
  them enumerable, and each carries the descriptor it has in \<open>obj\<close> with the same value,
  getter, setter, writable and configurable fields.
\<close>

theorem toBlankObj_flat_record:
  assumes "a < length (heap s)"
  shows "\<exists>B. toBlankObj (VRef a) s = (Normal (VRef (length (heap s))), s\<lparr>heap := heap s @ [B]\<rparr>)
    \<and> obj_at (heap s) (length (heap s)) = None
    \<and> obj_proto B = None
    \<and> own_keys B
        = {KStr n |n. KStr n \<in> own_keys (heap s ! a) \<and> n \<notin> set NATIVE_PROPS_NON_ENUMERABLE}
    \<and> own_enumerable_keys B = own_keys B
    \<and> (\<forall>k\<in>own_keys B. \<exists>d d'.
          descriptor_of (heap s ! a) k = Some d \<and> descriptor_of B k = Some d'
          \<and> pd_enumerable d' \<and> pd_value d' = pd_value d \<and> pd_get d' = pd_get d
          \<and> pd_set d' = pd_set d \<and> pd_writable d' = pd_writable d
          \<and> pd_configurable d' = pd_configurable d)"
proof -
  let ?ps = "obj_props (heap s ! a)"
  let ?K = "KStr ` {n. KStr n \<in> fst ` set ?ps \<and> nameIsNotNative n}"
  obtain B where run: "toBlankObj (VRef a) s
      = (Normal (VRef (length (heap s))), s\<lparr>heap := heap s @ [B]\<rparr>)"
    and proto: "obj_proto B = None"
    and m: "map_of (obj_props B) =
        (\<lambda>k. if k \<in> ?K then map_option (\<lambda>d. set_enumerable d True) (map_of ?ps k) else None)"
    using toBlankObj_of_object [OF assms] by blast
  have "map_of ?ps k \<noteq> None" if "k \<in> fst ` set ?ps" for k
    using that by (simp add: map_of_eq_None_iff)
  then have src: "\<And>k. k \<in> ?K \<Longrightarrow> \<exists>d. map_of ?ps k = Some d"
    by auto
  have "dom (map_of (obj_props B)) = ?K"
    using src by (auto simp: m dom_def split: if_splits)
  then have keys: "own_keys B = ?K"
    by (simp add: own_keys_def dom_map_of_conv_image_fst)
  have K: "?K = {KStr n |n. KStr n \<in> own_keys (heap s ! a) \<and> n \<notin> set NATIVE_PROPS_NON_ENUMERABLE}"
    by (auto simp: own_keys_def nameIsNotNative_iff)
  have descs: "\<forall>k\<in>own_keys B. \<exists>d. descriptor_of (heap s ! a) k = Some d
      \<and> descriptor_of B k = Some (set_enumerable d True)"
  proof
    fix k assume "k \<in> own_keys B"
    then have k: "k \<in> ?K" using keys by simp
    then obtain d where "map_of ?ps k = Some d" using src by blast
    then show "\<exists>d. descriptor_of (heap s ! a) k = Some d
      \<and> descriptor_of B k = Some (set_enumerable d True)"
      using k by (simp add: descriptor_of_def m)
  qed
  have enum: "own_enumerable_keys B = own_keys B"
    using descs set_enumerable_fields by (fastforce simp: own_enumerable_keys_def)
  have "\<forall>k\<in>own_keys B. \<exists>d d'.
          descriptor_of (heap s ! a) k = Some d \<and> descriptor_of B k = Some d'
          \<and> pd_enumerable d' \<and> pd_value d' = pd_value d \<and> pd_get d' = pd_get d
          \<and> pd_set d' = pd_set d \<and> pd_writable d' = pd_writable d
          \<and> pd_configurable d' = pd_configurable d"
    using descs set_enumerable_fields by blast
  then show ?thesis using run proto keys K enum by (auto simp: obj_at_def)
qed

text \<open>
  Claim C2. For every name in \<open>NATIVE_PROPS_NON_ENUMERABLE\<close> and every input and state, a
  result of \<open>toBlankObj\<close> does not have that name as an own property, whatever the input
  defines itself.
\<close>

theorem toBlankObj_excludes_native:
  assumes "n \<in> set NATIVE_PROPS_NON_ENUMERABLE" and "toBlankObj ob s = (Normal r, s')"
  shows "\<exists>b B. r = VRef b \<and> obj_at (heap s') b = Some B \<and> KStr n \<notin> own_keys B"
proof -
  obtain B where B: "heap s' = heap s @ [B]"
    "\<forall>k\<in>fst ` set (obj_props B). \<exists>n. k = KStr n \<and> nameIsNotNative n"
    using toBlankObj_blank [of ob s] assms(2) by auto
  have r: "r = VRef (length (heap s))"
    using toBlankObj_result [of ob s r] assms(2) by simp
  have "KStr n \<notin> own_keys B"
    using B(2) assms(1) by (auto simp: own_keys_def nameIsNotNative_iff)
  then show ?thesis using r B(1) by (simp add: obj_at_snoc_last)
qed

text \<open>
  Claim C7. \<open>toBlankObj(obj)\<close> does not mutate \<open>obj\<close>: after the call the object at the address
  of \<open>obj\<close> is the object that was there before, with the same own keys and the same
  descriptor for every key; indeed every object of the heap before the call is unchanged.
\<close>

theorem toBlankObj_does_not_mutate:
  assumes "a < length (heap s)"
  shows "obj_at (heap (snd (toBlankObj (VRef a) s))) a = obj_at (heap s) a
    \<and> own_keys (heap (snd (toBlankObj (VRef a) s)) ! a) = own_keys (heap s ! a)
    \<and> (\<forall>k. descriptor_of (heap (snd (toBlankObj (VRef a) s)) ! a) k
            = descriptor_of (heap s ! a) k)
    \<and> take (length (heap s)) (heap (snd (toBlankObj (VRef a) s))) = heap s"
proof -
  obtain B where "heap (snd (toBlankObj (VRef a) s)) = heap s @ [B]"
    using toBlankObj_blank [of "VRef a" s] by blast
  then show ?thesis using assms by (simp add: obj_at_def nth_append)
qed

lemma demo_length: "length (heap demo_state) = 18"
  by (simp add: demo_state_def demo_heap_def)

lemma toBlankObj_demo:
  "toBlankObj (VRef 7) demo_state =
     (Normal (VRef 18),
      \<lparr>heap = demo_heap @
         [\<lparr>obj_proto = None, obj_extensible = True, obj_call = None,
           obj_props =
             [(KStr ''aboot'', AccessorDesc (VRef 8) VUndefined True True),
              (KStr ''moose'', DataDesc (VRef 9) True True True)]\<rparr>],
       calls = []\<rparr>)"
  by code_simp

theorem toBlankObj_flat_record_witness:
  "7 < length (heap demo_state)
   \<and> (\<exists>B. toBlankObj (VRef 7) demo_state
            = (Normal (VRef 18), demo_state\<lparr>heap := heap demo_state @ [B]\<rparr>)
        \<and> obj_proto B = None \<and> own_enumerable_keys B = own_keys B)"
proof -
  have h: "7 < length (heap demo_state)" by (simp add: demo_length)
  obtain B where "toBlankObj (VRef 7) demo_state
      = (Normal (VRef (length (heap demo_state))), demo_state\<lparr>heap := heap demo_state @ [B]\<rparr>)"
    and "obj_proto B = None" and "own_enumerable_keys B = own_keys B"
    using toBlankObj_flat_record [OF h] by (elim exE conjE)
  then show ?thesis using h by (auto simp: demo_length)
qed

theorem toBlankObj_excludes_native_witness:
  "''constructor'' \<in> set NATIVE_PROPS_NON_ENUMERABLE
   \<and> KStr ''constructor'' \<in> own_keys (demo_heap ! 7)
   \<and> (\<exists>r s' b B. toBlankObj (VRef 7) demo_state = (Normal r, s')
        \<and> r = VRef b \<and> obj_at (heap s') b = Some B \<and> KStr ''constructor'' \<notin> own_keys B)"
proof -
  have n: "''constructor'' \<in> set NATIVE_PROPS_NON_ENUMERABLE"
    by (simp add: NATIVE_PROPS_NON_ENUMERABLE_def)
  have k: "KStr ''constructor'' \<in> own_keys (demo_heap ! 7)"
    by (simp add: own_keys_def demo_heap_def mk_obj_def)
  from toBlankObj_excludes_native [OF n toBlankObj_demo] n k toBlankObj_demo
  show ?thesis by blast
qed

theorem toBlankObj_does_not_mutate_witness:
  "7 < length (heap demo_state)
   \<and> obj_at (heap (snd (toBlankObj (VRef 7) demo_state))) 7 = obj_at (heap demo_state) 7"
proof -
  have h: "7 < length (heap demo_state)" by (simp add: demo_length)
  from toBlankObj_does_not_mutate [OF h] h show ?thesis by blast
qed

section \<open>The normalizer \<open>thisless\<close>\<close>

lemma isPlainObject_True_iff:
  "isPlainObject h v = Normal True \<longleftrightarrow>
     (\<exists>a ob. v = VRef a \<and> obj_at h a = Some ob \<and> obj_call ob = None
        \<and> (obj_proto ob = Some ObjectPrototype \<or> obj_proto ob = None))"
  by (cases v) (auto simp: isPlainObject_def split: option.splits)

lemma isPlainObject_not_callable:
  "isPlainObject h v = Normal True \<Longrightarrow> \<not> is_callable h v"
  by (auto simp: isPlainObject_True_iff is_callable_def)

lemma thisless_plain:
  "isPlainObject (heap s) v = Normal True \<Longrightarrow> thisless call v s = (Normal v, s)"
  by (simp add: thisless_def js_bind_def js_read_def js_return_def)

lemma thisless_not_plain:
  "isPlainObject (heap s) v = Normal False \<Longrightarrow>
     thisless call v s = js_bind (get_prop call v ''prototype'') toBlankObj s"
  by (simp add: thisless_def js_bind_def js_read_def)

lemma thisless_Normal_cases:
  assumes "thisless call v s = (Normal r, s')"
  shows "(isPlainObject (heap s) v = Normal True \<and> r = v \<and> s' = s)
    \<or> (isPlainObject (heap s) v = Normal False
        \<and> (\<exists>p s1. get_prop call v ''prototype'' s = (Normal p, s1)
              \<and> toBlankObj p s1 = (Normal r, s')))"
proof (cases "isPlainObject (heap s) v")
  case (Normal b)
  show ?thesis
  proof (cases b)
    case True
    then show ?thesis using Normal assms by (simp add: thisless_plain)
  next
    case False
    obtain o1 s1 where g: "get_prop call v ''prototype'' s = (o1, s1)"
      by (cases "get_prop call v ''prototype'' s")
    show ?thesis using Normal False assms g
      by (cases o1) (simp_all add: thisless_not_plain js_bind_def)
  qed
qed (use assms in \<open>simp_all add: thisless_def js_bind_def js_read_def\<close>)

lemma toBlankObj_Normal:
  assumes "toBlankObj ob s = (Normal r, s')"
  shows "\<exists>B. r = VRef (length (heap s)) \<and> heap s' = heap s @ [B] \<and> calls s' = calls s
    \<and> obj_proto B = None \<and> obj_call B = None"
  using toBlankObj_blank [of ob s] toBlankObj_result [of ob s r] assms by auto

lemma toBlankObj_result_plain:
  assumes "toBlankObj ob s = (Normal r, s')"
  shows "isPlainObject (heap s') r = Normal True"
  using toBlankObj_Normal [OF assms]
  by (auto simp: isPlainObject_True_iff obj_at_snoc_last)

lemma thisless_result_plain:
  assumes "thisless call v s = (Normal r, s')"
  shows "isPlainObject (heap s') r = Normal True"
  using thisless_Normal_cases [OF assms] toBlankObj_result_plain by blast

lemma construct_not_callable:
  "isPlainObject (heap s) v = Normal True \<Longrightarrow> construct ctor v args s = (Throws TypeError, s)"
  by (auto simp: isPlainObject_True_iff construct_def)

text \<open>
  Claim C4. For every value \<open>v\<close> for which \<open>isPlainObject\<close> is true, that is an object that
  is not callable and whose prototype is \<open>Object.prototype\<close> or \<open>null\<close>, \<open>thisless(v)\<close> returns
  \<open>v\<close> itself and leaves the state as it is: nothing is allocated.
\<close>

theorem thisless_plain_identity:
  assumes "isPlainObject (heap s) v = Normal True"
  shows "thisless call v s = (Normal v, s)
    \<and> (\<exists>a ob. v = VRef a \<and> obj_at (heap s) a = Some ob \<and> obj_call ob = None
          \<and> (obj_proto ob = Some ObjectPrototype \<or> obj_proto ob = None))"
  using assms thisless_plain [OF assms] by (simp add: isPlainObject_True_iff)

theorem thisless_plain_identity_witness:
  "isPlainObject (heap demo_state) (VRef 11) = Normal True
   \<and> thisless demo_call (VRef 11) demo_state = (Normal (VRef 11), demo_state)"
proof -
  have h: "isPlainObject (heap demo_state) (VRef 11) = Normal True" by code_simp
  from thisless_plain_identity [OF h] h show ?thesis by blast
qed

text \<open>
  Claim C9. A result of \<open>toBlankObj\<close> satisfies \<open>isPlainObject\<close>, so \<open>thisless\<close> returns it
  unchanged; and whenever \<open>thisless(x)\<close> returns a value, \<open>thisless\<close> of that value returns
  the same value and changes nothing.
\<close>

theorem thisless_idempotent:
  "(toBlankObj ob s = (Normal r, s') \<longrightarrow>
      isPlainObject (heap s') r = Normal True \<and> getPrototypeOf (heap s') r = Normal VNull
      \<and> thisless call r s' = (Normal r, s'))
   \<and> (thisless call x s = (Normal r2, s2) \<longrightarrow> thisless call r2 s2 = (Normal r2, s2))"
proof (intro conjI impI)
  assume run: "toBlankObj ob s = (Normal r, s')"
  show "isPlainObject (heap s') r = Normal True" by (rule toBlankObj_result_plain [OF run])
  then show "thisless call r s' = (Normal r, s')" by (rule thisless_plain)
  show "getPrototypeOf (heap s') r = Normal VNull"
    using toBlankObj_Normal [OF run] by (auto simp: obj_at_snoc_last)
next
  assume "thisless call x s = (Normal r2, s2)"
  then have "isPlainObject (heap s2) r2 = Normal True" by (rule thisless_result_plain)
  then show "thisless call r2 s2 = (Normal r2, s2)" by (rule thisless_plain)
qed

lemma thisless_demo_class:
  "thisless demo_call (VRef 6) demo_state =
     (Normal (VRef 18),
      \<lparr>heap = demo_heap @
         [\<lparr>obj_proto = None, obj_extensible = True, obj_call = None,
           obj_props =
             [(KStr ''aboot'', AccessorDesc (VRef 8) VUndefined True True),
              (KStr ''moose'', DataDesc (VRef 9) True True True)]\<rparr>],
       calls = []\<rparr>)"
  by code_simp

theorem thisless_idempotent_witness:
  "(\<exists>r s'. toBlankObj (VRef 7) demo_state = (Normal r, s')
      \<and> thisless demo_call r s' = (Normal r, s'))
   \<and> (\<exists>r s'. thisless demo_call (VRef 6) demo_state = (Normal r, s')
      \<and> thisless demo_call r s' = (Normal r, s'))"
  using thisless_idempotent [where ob = "VRef 7" and s = demo_state and call = demo_call
      and x = "VRef 6"]
    toBlankObj_demo thisless_demo_class by blast

text \<open>
  Claim C5, as stated, fails: \<open>thisless\<close> returns a plain object as it is, and a plain object
  may have the prototype \<open>Object.prototype\<close>. The context object of the concrete heap is one.
\<close>

theorem thisless_keeps_prototype_counterexample:
  "thisless demo_call (VRef 11) demo_state = (Normal (VRef 11), demo_state)
   \<and> getPrototypeOf (heap demo_state) (VRef 11) = Normal (VRef ObjectPrototype)"
  by code_simp

text \<open>
  Claim C5, amended. A result of \<open>toBlankObj\<close> has no prototype. A result of \<open>thisless\<close> has no
  prototype when the input is not a plain object, and is the input itself, in the same state,
  when the input is a plain object. In every case the result is not callable, so using it as
  a constructor throws a type error.
\<close>

theorem results_not_constructible:
  "(toBlankObj ob s = (Normal r, s') \<longrightarrow>
      getPrototypeOf (heap s') r = Normal VNull
      \<and> construct ctor r args s' = (Throws TypeError, s'))
   \<and> (thisless call x s = (Normal r2, s2) \<longrightarrow>
      construct ctor r2 args s2 = (Throws TypeError, s2)
      \<and> (if isPlainObject (heap s) x = Normal True then r2 = x \<and> s2 = s
         else getPrototypeOf (heap s2) r2 = Normal VNull))"
proof (intro conjI impI)
  assume run: "toBlankObj ob s = (Normal r, s')"
  show "getPrototypeOf (heap s') r = Normal VNull"
    using toBlankObj_Normal [OF run] by (auto simp: obj_at_snoc_last)
  show "construct ctor r args s' = (Throws TypeError, s')"
    by (rule construct_not_callable [OF toBlankObj_result_plain [OF run]])
next
  assume run: "thisless call x s = (Normal r2, s2)"
  show "construct ctor r2 args s2 = (Throws TypeError, s2)"
    by (rule construct_not_callable [OF thisless_result_plain [OF run]])
  show "if isPlainObject (heap s) x = Normal True then r2 = x \<and> s2 = s
         else getPrototypeOf (heap s2) r2 = Normal VNull"
  proof (cases "isPlainObject (heap s) x = Normal True")
    case True
    then show ?thesis using run by (simp add: thisless_plain)
  next
    case False
    then obtain p s1 where "toBlankObj p s1 = (Normal r2, s2)"
      using thisless_Normal_cases [OF run] by blast
    then have "getPrototypeOf (heap s2) r2 = Normal VNull"
      using toBlankObj_Normal [of p s1 r2 s2] by (auto simp: obj_at_snoc_last)
    then show ?thesis using False by simp
  qed
qed

theorem results_not_constructible_witness:
  "(\<exists>r s'. toBlankObj (VRef 7) demo_state = (Normal r, s')
      \<and> getPrototypeOf (heap s') r = Normal VNull
      \<and> construct demo_call r [] s' = (Throws TypeError, s'))
   \<and> (\<exists>r s'. thisless demo_call (VRef 6) demo_state = (Normal r, s')
      \<and> construct demo_call r [] s' = (Throws TypeError, s'))"
  using results_not_constructible [where ob = "VRef 7" and s = demo_state and call = demo_call
      and x = "VRef 6" and ctor = demo_call and args = "[]"]
    toBlankObj_demo thisless_demo_class by blast

section \<open>The deferred binder \<open>selfless\<close>\<close>

lemma js_bind_Normal:
  assumes "js_bind m f s = (Normal r, s')"
  shows "\<exists>x s1. m s = (Normal x, s1) \<and> f x s1 = (Normal r, s')"
proof -
  obtain o1 s1 where m: "m s = (o1, s1)" by (cases "m s")
  show ?thesis using assms m by (cases o1) (simp_all add: js_bind_def)
qed

lemma invoke_callable:
  assumes "is_callable (heap s) f" and "call f this args (heap s) = (r, h')"
  shows "invoke call st f this args s
    = (r, \<lparr>heap = h', calls = calls s @ [(st, f, this, args)]\<rparr>)"
  using assms by (auto simp: invoke_def is_callable_def split: val.splits option.splits)

lemma invoke_calls:
  "calls (snd (invoke call st f this args s)) = calls s
   \<or> calls (snd (invoke call st f this args s)) = calls s @ [(st, f, this, args)]"
  by (auto simp: invoke_def split: val.splits option.splits prod.splits)

lemma get_prop_calls:
  "\<exists>es. calls (snd (get_prop call v name s)) = calls s @ es \<and> (\<forall>e\<in>set es. fst e = Getter)"
proof -
  have "calls (snd (get_prop call v name s)) = calls s
    \<or> (\<exists>g. calls (snd (get_prop call v name s)) = calls s @ [(Getter, g, v, [])])"
    using invoke_calls [of call Getter _ v "[]" s]
    by (auto simp: get_prop_def split: outcome.splits option.splits pdesc.splits)
  then show ?thesis by auto
qed

lemma toBlankObj_calls: "calls (snd (toBlankObj ob s)) = calls s"
  using toBlankObj_blank [of ob s] by blast

lemma thisless_calls:
  "\<exists>es. calls (snd (thisless call v s)) = calls s @ es \<and> (\<forall>e\<in>set es. fst e = Getter)"
proof (cases "isPlainObject (heap s) v")
  case (Normal b)
  show ?thesis
  proof (cases b)
    case True
    then show ?thesis using Normal by (simp add: thisless_plain)
  next
    case False
    obtain o1 s1 where g: "get_prop call v ''prototype'' s = (o1, s1)"
      by (cases "get_prop call v ''prototype'' s")
    obtain es where es: "calls s1 = calls s @ es" "\<forall>e\<in>set es. fst e = Getter"
      using get_prop_calls [of call v "''prototype''" s] g by auto
    have "calls (snd (thisless call v s)) = calls s1"
      using Normal False g toBlankObj_calls
      by (cases o1) (simp_all add: thisless_not_plain js_bind_def)
    then show ?thesis using es by auto
  qed
qed (simp_all add: thisless_def js_bind_def js_read_def)

lemma selfless_eager:
  "length args \<noteq> 1 \<Longrightarrow>
     selfless call args
       = js_bind (invoke call Provider (arg args 0) VUndefined [arg args 1]) (thisless call)"
  by (simp add: selfless_def)

lemma selfless_two: "selfless call [p, c] = selflessCurry call p [c]"
  by (simp add: selfless_def selflessCurry_def arg_def)

lemma make_function_result:
  "\<exists>F P. make_function c name len s
      = (Normal (VRef (length (heap s))), s\<lparr>heap := heap s @ [F, P]\<rparr>)
    \<and> obj_call F = Some c \<and> obj_call P = None"
  unfolding make_function_def Let_def
  by (intro exI conjI) (rule refl, simp_all)

lemma selfless_one:
  "\<exists>F P. selfless call [fn] s
      = (Normal (VRef (length (heap s))), s\<lparr>heap := heap s @ [F, P]\<rparr>)
    \<and> obj_call F = Some (SelflessCurry fn) \<and> obj_call P = None"
  using make_function_result [of "SelflessCurry fn" "''selflessCurry''" 1 s]
  by (simp add: selfless_def arg_def)

lemma call_function_curry:
  assumes "obj_at (heap s) g = Some ob" and "obj_call ob = Some (SelflessCurry p)"
  shows "call_function call (VRef g) this args s = selflessCurry call p args s"
  using assms by (simp add: call_function_def)

lemma provider_throws:
  assumes "is_callable (heap s) p" and "call p VUndefined [c] (heap s) = (Throws e, h')"
  shows "selflessCurry call p [c] s
    = (Throws e, \<lparr>heap = h', calls = calls s @ [(Provider, p, VUndefined, [c])]\<rparr>)"
  using assms by (simp add: selflessCurry_def js_bind_def arg_def invoke_callable)

lemma provider_log_exact:
  assumes "is_callable (heap s) p"
  shows "\<exists>es. calls (snd (selflessCurry call p [c] s))
        = calls s @ (Provider, p, VUndefined, [c]) # es
    \<and> (\<forall>e\<in>set es. fst e = Getter)"
proof -
  obtain r h' where c: "call p VUndefined [c] (heap s) = (r, h')"
    by (cases "call p VUndefined [c] (heap s)")
  let ?s1 = "\<lparr>heap = h', calls = calls s @ [(Provider, p, VUndefined, [c])]\<rparr>"
  have inv: "invoke call Provider p VUndefined [c] s = (r, ?s1)"
    using assms c by (simp add: invoke_callable)
  show ?thesis
  proof (cases r)
    case (Normal cls)
    obtain es where "calls (snd (thisless call cls ?s1)) = calls ?s1 @ es"
      and "\<forall>e\<in>set es. fst e = Getter"
      using thisless_calls [of call cls ?s1] by blast
    moreover have "selflessCurry call p [c] s = thisless call cls ?s1"
      using inv Normal by (simp add: selflessCurry_def js_bind_def arg_def)
    ultimately show ?thesis by auto
  qed (use inv in \<open>simp_all add: selflessCurry_def js_bind_def arg_def\<close>)
qed

lemma selfless_demo_eager:
  "selfless demo_call [VRef 10, VRef 11] demo_state =
     (Normal (VRef 18),
      \<lparr>heap = demo_heap @
         [\<lparr>obj_proto = None, obj_extensible = True, obj_call = None,
           obj_props =
             [(KStr ''aboot'', AccessorDesc (VRef 8) VUndefined True True),
              (KStr ''moose'', DataDesc (VRef 9) True True True)]\<rparr>],
       calls = [(Provider, VRef 10, VUndefined, [VRef 11])]\<rparr>)"
  by code_simp

lemma selfless_demo_failing:
  "selfless demo_call [VRef 12, VRef 11] demo_state =
     (Throws (Thrown (VStr ''boom'')),
      \<lparr>heap = demo_heap, calls = [(Provider, VRef 12, VUndefined, [VRef 11])]\<rparr>)"
  by code_simp

text \<open>
  Claim C3. \<open>selfless(p)\<close> returns a new function object, the closure \<open>selflessCurry\<close> that
  captures \<open>p\<close>, and changes nothing else. Calling that closure with \<open>c\<close> has the outcome and
  the final state of \<open>selfless(p, c)\<close> in the same state, so the two results are the same
  object description: the same own enumerable keys with the same descriptors. This holds in
  the state in which the closure is returned and in every later state in which it is called.
\<close>

theorem selfless_currying_equivalence:
  "(\<exists>g s1. selfless call [p] s = (Normal (VRef g), s1)
      \<and> take (length (heap s)) (heap s1) = heap s \<and> calls s1 = calls s
      \<and> call_function call (VRef g) this [c] s1 = selfless call [p, c] s1)
   \<and> (\<forall>s' g ob. obj_at (heap s') g = Some ob \<longrightarrow> obj_call ob = Some (SelflessCurry p) \<longrightarrow>
        call_function call (VRef g) this [c] s' = selfless call [p, c] s')"
proof (intro conjI allI impI)
  obtain F P where one: "selfless call [p] s
      = (Normal (VRef (length (heap s))), s\<lparr>heap := heap s @ [F, P]\<rparr>)"
    and F: "obj_call F = Some (SelflessCurry p)"
    using selfless_one [of call p s] by blast
  let ?s1 = "s\<lparr>heap := heap s @ [F, P]\<rparr>"
  have "obj_at (heap ?s1) (length (heap s)) = Some F"
    by (simp add: obj_at_def nth_append)
  then have "call_function call (VRef (length (heap s))) this [c] ?s1 = selfless call [p, c] ?s1"
    using F by (simp add: call_function_curry selfless_two)
  then show "\<exists>g s1. selfless call [p] s = (Normal (VRef g), s1)
      \<and> take (length (heap s)) (heap s1) = heap s \<and> calls s1 = calls s
      \<and> call_function call (VRef g) this [c] s1 = selfless call [p, c] s1"
    using one by simp
next
  fix s' :: jstate and g ob
  assume "obj_at (heap s') g = Some ob" and "obj_call ob = Some (SelflessCurry p)"
  then show "call_function call (VRef g) this [c] s' = selfless call [p, c] s'"
    by (simp add: call_function_curry selfless_two)
qed

theorem selfless_currying_equivalence_witness:
  "\<exists>s1 ob. selfless demo_call [VRef 10] demo_state = (Normal (VRef 18), s1)
     \<and> obj_at (heap s1) 18 = Some ob \<and> obj_call ob = Some (SelflessCurry (VRef 10))
     \<and> call_function demo_call (VRef 18) VUndefined [VRef 11] s1
         = selfless demo_call [VRef 10, VRef 11] s1"
proof -
  obtain F P where one: "selfless demo_call [VRef 10] demo_state
      = (Normal (VRef (length (heap demo_state))), demo_state\<lparr>heap := heap demo_state @ [F, P]\<rparr>)"
    and F: "obj_call F = Some (SelflessCurry (VRef 10))"
    using selfless_one [of demo_call "VRef 10" demo_state] by blast
  let ?s1 = "demo_state\<lparr>heap := heap demo_state @ [F, P]\<rparr>"
  have at: "obj_at (heap ?s1) 18 = Some F"
    by (simp add: obj_at_def nth_append demo_length)
  from selfless_currying_equivalence [of demo_call "VRef 10" demo_state VUndefined "VRef 11"]
  have "call_function demo_call (VRef 18) VUndefined [VRef 11] ?s1
         = selfless demo_call [VRef 10, VRef 11] ?s1"
    using at F by blast
  then show ?thesis using one at F by (simp add: demo_length)
qed

text \<open>
  Claim C6. When \<open>p\<close> is a function, \<open>selfless(p, c)\<close> and the closure returned by
  \<open>selfless(p)\<close>, called with \<open>c\<close>, call \<open>p\<close> once, with the argument \<open>c\<close>: the calls they add to
  the log are that call followed only by calls of getters made by the normalizer's read of
  \<open>prototype\<close>. If that call of \<open>p\<close> throws, they throw the same value, in the state \<open>p\<close> left.
  Creating the closure with \<open>selfless(p)\<close> calls nothing.
\<close>

theorem selfless_provider_once:
  assumes "is_callable (heap s) p"
  shows "(\<exists>es. calls (snd (selfless call [p, c] s)) = calls s @ (Provider, p, VUndefined, [c]) # es
        \<and> (\<forall>e\<in>set es. fst e = Getter))
    \<and> (\<exists>es. calls (snd (selflessCurry call p [c] s)) = calls s @ (Provider, p, VUndefined, [c]) # es
        \<and> (\<forall>e\<in>set es. fst e = Getter))
    \<and> (\<forall>e h'. call p VUndefined [c] (heap s) = (Throws e, h') \<longrightarrow>
          selfless call [p, c] s
            = (Throws e, \<lparr>heap = h', calls = calls s @ [(Provider, p, VUndefined, [c])]\<rparr>)
          \<and> selflessCurry call p [c] s
            = (Throws e, \<lparr>heap = h', calls = calls s @ [(Provider, p, VUndefined, [c])]\<rparr>))
    \<and> calls (snd (selfless call [p] s)) = calls s"
proof -
  have log: "\<exists>es. calls (snd (selflessCurry call p [c] s))
        = calls s @ (Provider, p, VUndefined, [c]) # es \<and> (\<forall>e\<in>set es. fst e = Getter)"
    by (rule provider_log_exact [OF assms])
  have thr: "\<forall>e h'. call p VUndefined [c] (heap s) = (Throws e, h') \<longrightarrow>
      selflessCurry call p [c] s
        = (Throws e, \<lparr>heap = h', calls = calls s @ [(Provider, p, VUndefined, [c])]\<rparr>)"
    using provider_throws [OF assms] by blast
  have one: "calls (snd (selfless call [p] s)) = calls s"
    using selfless_one [of call p s] by auto
  show ?thesis using log thr one by (simp add: selfless_two)
qed

theorem selfless_provider_once_witness:
  "is_callable (heap demo_state) (VRef 12)
   \<and> demo_call (VRef 12) VUndefined [VRef 11] (heap demo_state)
       = (Throws (Thrown (VStr ''boom'')), heap demo_state)
   \<and> selfless demo_call [VRef 12, VRef 11] demo_state
       = (Throws (Thrown (VStr ''boom'')),
          \<lparr>heap = heap demo_state,
           calls = calls demo_state @ [(Provider, VRef 12, VUndefined, [VRef 11])]\<rparr>)"
proof -
  have h: "is_callable (heap demo_state) (VRef 12)" by code_simp
  have t: "demo_call (VRef 12) VUndefined [VRef 11] (heap demo_state)
       = (Throws (Thrown (VStr ''boom'')), heap demo_state)"
    by (simp add: demo_call_def)
  from selfless_provider_once [OF h, of demo_call "VRef 11"] t h show ?thesis by blast
qed

text \<open>
  Claim C10. \<open>selfless\<close> chooses its branch by the number of arguments. With the two arguments
  \<open>fn\<close> and \<open>undefined\<close> it calls \<open>fn(undefined)\<close> at once and returns the normalized result, which
  is never a function; so does every call whose number of arguments is not one. Only a call
  with one argument returns the curried function, and that call calls nothing.
\<close>

theorem selfless_dispatch_on_count:
  "selfless call [fn, VUndefined] s
     = js_bind (invoke call Provider fn VUndefined [VUndefined]) (thisless call) s
   \<and> (is_callable (heap s) fn \<longrightarrow>
        (\<exists>es. calls (snd (selfless call [fn, VUndefined] s))
           = calls s @ (Provider, fn, VUndefined, [VUndefined]) # es))
   \<and> (\<forall>r s'. selfless call [fn, VUndefined] s = (Normal r, s') \<longrightarrow> \<not> is_callable (heap s') r)
   \<and> (length args \<noteq> 1 \<longrightarrow>
        selfless call args s
          = js_bind (invoke call Provider (arg args 0) VUndefined [arg args 1]) (thisless call) s)
   \<and> (\<exists>s1 ob. selfless call [fn] s = (Normal (VRef (length (heap s))), s1)
        \<and> obj_at (heap s1) (length (heap s)) = Some ob
        \<and> obj_call ob = Some (SelflessCurry fn) \<and> calls s1 = calls s)"
proof (intro conjI allI impI)
  show "selfless call [fn, VUndefined] s
     = js_bind (invoke call Provider fn VUndefined [VUndefined]) (thisless call) s"
    by (simp add: selfless_def arg_def)
next
  assume "is_callable (heap s) fn"
  then show "\<exists>es. calls (snd (selfless call [fn, VUndefined] s))
           = calls s @ (Provider, fn, VUndefined, [VUndefined]) # es"
    using provider_log_exact [of s fn call VUndefined] by (auto simp: selfless_two)
next
  fix r s' assume "selfless call [fn, VUndefined] s = (Normal r, s')"
  then obtain cls s1 where "thisless call cls s1 = (Normal r, s')"
    using js_bind_Normal [of "invoke call Provider fn VUndefined [VUndefined]" "thisless call" s r s']
    by (auto simp: selfless_def arg_def)
  then show "\<not> is_callable (heap s') r"
    using thisless_result_plain isPlainObject_not_callable by blast
next
  assume "length args \<noteq> 1"
  then show "selfless call args s
          = js_bind (invoke call Provider (arg args 0) VUndefined [arg args 1]) (thisless call) s"
    by (simp add: selfless_eager)
next
  obtain F P where one: "selfless call [fn] s
      = (Normal (VRef (length (heap s))), s\<lparr>heap := heap s @ [F, P]\<rparr>)"
    and F: "obj_call F = Some (SelflessCurry fn)"
    using selfless_one [of call fn s] by blast
  have "obj_at (heap (s\<lparr>heap := heap s @ [F, P]\<rparr>)) (length (heap s)) = Some F"
    by (simp add: obj_at_def nth_append)
  then show "\<exists>s1 ob. selfless call [fn] s = (Normal (VRef (length (heap s))), s1)
        \<and> obj_at (heap s1) (length (heap s)) = Some ob
        \<and> obj_call ob = Some (SelflessCurry fn) \<and> calls s1 = calls s"
    using one F by simp
qed

lemma selfless_demo_undefined:
  "selfless demo_call [VRef 10, VUndefined] demo_state =
     (Normal (VRef 18),
      \<lparr>heap = demo_heap @
         [\<lparr>obj_proto = None, obj_extensible = True, obj_call = None,
           obj_props =
             [(KStr ''aboot'', AccessorDesc (VRef 8) VUndefined True True),
              (KStr ''moose'', DataDesc (VRef 9) True True True)]\<rparr>],
       calls = [(Provider, VRef 10, VUndefined, [VUndefined])]\<rparr>)"
  by code_simp

theorem selfless_dispatch_on_count_witness:
  "is_callable (heap demo_state) (VRef 10) \<and> length [VRef 10, VUndefined] \<noteq> 1
   \<and> (\<exists>r s'. selfless demo_call [VRef 10, VUndefined] demo_state = (Normal r, s')
        \<and> \<not> is_callable (heap s') r
        \<and> calls s' = [(Provider, VRef 10, VUndefined, [VUndefined])])"
proof -
  have h: "is_callable (heap demo_state) (VRef 10)" by code_simp
  obtain s' where run: "selfless demo_call [VRef 10, VUndefined] demo_state = (Normal (VRef 18), s')"
    and log: "calls s' = [(Provider, VRef 10, VUndefined, [VUndefined])]"
    using selfless_demo_undefined by simp
  have "\<forall>r s'. selfless demo_call [VRef 10, VUndefined] demo_state = (Normal r, s')
      \<longrightarrow> \<not> is_callable (heap s') r"
    using selfless_dispatch_on_count [of demo_call "VRef 10" demo_state "[VRef 10, VUndefined]"]
    by (elim conjE)
  then have "\<not> is_callable (heap s') (VRef 18)" using run by blast
  then show ?thesis using h run log by auto
qed

section \<open>The integration patch \<open>hackObjectTypePrototype\<close>\<close>

lemma find_prop_own:
  "0 < n \<Longrightarrow> obj_at h a = Some ob \<Longrightarrow> map_of (obj_props ob) k = Some d \<Longrightarrow>
     find_prop n h a k = Normal (Some d)"
  by (cases n) simp_all

lemma find_prop_None_own:
  "find_prop n h a k = Normal None \<Longrightarrow> obj_at h a = Some ob \<Longrightarrow> map_of (obj_props ob) k = None"
  by (cases n) (auto split: option.splits)

lemma find_prop_stable:
  assumes "find_prop n h a k = Normal r"
    and "\<And>b ob. obj_at h b = Some ob \<Longrightarrow>
       \<exists>ob'. obj_at h' b = Some ob' \<and> obj_proto ob' = obj_proto ob
         \<and> map_of (obj_props ob') k = map_of (obj_props ob) k"
    and "n \<le> m"
  shows "find_prop m h' a k = Normal r"
  using assms
proof (induction n h a k arbitrary: m rule: find_prop.induct)
  case (1 h a k)
  then show ?case by simp
next
  case (2 n h a k)
  obtain m' where m: "m = Suc m'" "n \<le> m'" using "2.prems"(3) by (cases m) auto
  obtain ob where ob: "obj_at h a = Some ob"
    using "2.prems"(1) by (auto split: option.splits)
  obtain ob' where ob': "obj_at h' a = Some ob'" "obj_proto ob' = obj_proto ob"
    "map_of (obj_props ob') k = map_of (obj_props ob) k"
    using "2.prems"(2) [OF ob] by blast
  show ?case
  proof (cases "map_of (obj_props ob) k")
    case (Some d)
    have r: "r = Some d" using "2.prems"(1) ob Some by simp
    have "map_of (obj_props ob') k = Some d" using ob'(3) Some by simp
    then have "find_prop (Suc m') h' a k = Normal (Some d)" using ob'(1) by simp
    then show ?thesis using r m by simp
  next
    case None
    note nokey = this
    show ?thesis
    proof (cases "obj_proto ob")
      case None
      have r: "r = None" using "2.prems"(1) ob None nokey by simp
      have "map_of (obj_props ob') k = None" "obj_proto ob' = None"
        using ob' nokey None by simp_all
      then have "find_prop (Suc m') h' a k = Normal None" using ob'(1) by simp
      then show ?thesis using r m by simp
    next
      case (Some p)
      have "find_prop n h p k = Normal r"
        using "2.prems"(1) ob Some nokey by simp
      then have "find_prop m' h' p k = Normal r"
        using "2.IH" [OF ob nokey Some _ _ m(2)] "2.prems"(2) by blast
      moreover have "map_of (obj_props ob') k = None" "obj_proto ob' = Some p"
        using ob' nokey Some by simp_all
      ultimately have "find_prop (Suc m') h' a k = Normal r" using ob'(1) by simp
      then show ?thesis using m by simp
    qed
  qed
qed

lemma get_prop_own_data:
  assumes "obj_at (heap s) a = Some ob"
    and "map_of (obj_props ob) (KStr name) = Some (DataDesc x w e c)"
  shows "get_prop call (VRef a) name s = (Normal x, s)"
proof -
  have "0 < length (heap s)" using assms(1) by (auto simp: obj_at_def split: if_splits)
  then have "find_for (heap s) (VRef a) (KStr name) = Normal (Some (DataDesc x w e c))"
    using assms by (simp add: find_prop_own)
  then show ?thesis by (simp add: get_prop_def)
qed

lemma set_prop_own_writable:
  assumes "obj_at (heap s) a = Some ob"
    and "map_of (obj_props ob) (KStr name) = Some (DataDesc x True e c)"
  shows "set_prop call (VRef a) name v s =
    (Normal (), s\<lparr>heap := (heap s)
       [a := ob\<lparr>obj_props := replace_prop (KStr name) (DataDesc v True e c) (obj_props ob)\<rparr>]\<rparr>)"
proof -
  have "0 < length (heap s)" using assms(1) by (auto simp: obj_at_def split: if_splits)
  then have "find_for (heap s) (VRef a) (KStr name) = Normal (Some (DataDesc x True e c))"
    using assms by (simp add: find_prop_own)
  then show ?thesis using assms by (simp add: set_prop_def write_receiver_def put_own_def)
qed

lemma set_prop_create:
  assumes "obj_at (heap s) a = Some ob"
    and "find_prop (length (heap s)) (heap s) a (KStr name) = Normal None"
    and "obj_extensible ob"
  shows "set_prop call (VRef a) name v s =
    (Normal (), s\<lparr>heap := (heap s)
       [a := ob\<lparr>obj_props := obj_props ob @ [(KStr name, DataDesc v True True True)]\<rparr>]\<rparr>)"
proof -
  have "map_of (obj_props ob) (KStr name) = None"
    by (rule find_prop_None_own [OF assms(2,1)])
  then show ?thesis using assms by (simp add: set_prop_def write_receiver_def put_own_def)
qed

lemma is_callable_append: "is_callable h v \<Longrightarrow> is_callable (h @ xs) v"
  by (auto simp: is_callable_def obj_at_def nth_append split: val.splits if_splits)

lemma wrapper_calls_original_once:
  assumes "obj_at (heap s) w = Some W"
    and "obj_call W = Some (ActionsWrapper orig) \<or> obj_call W = Some (ViewsWrapper orig)"
    and "is_callable (heap s) orig"
  shows "calls (snd (call_function call (VRef w) this [f] s))
    = calls s @ [(Original, orig, this, [VRef (length (heap s))])]"
proof -
  obtain F P where one: "selfless call [f] s
      = (Normal (VRef (length (heap s))), s\<lparr>heap := heap s @ [F, P]\<rparr>)"
    using selfless_one [of call f s] by blast
  let ?s1 = "s\<lparr>heap := heap s @ [F, P]\<rparr>"
  let ?g = "VRef (length (heap s))"
  obtain r h' where c: "call orig this [?g] (heap ?s1) = (r, h')"
    by (cases "call orig this [?g] (heap ?s1)")
  have "is_callable (heap ?s1) orig" using assms(3) by (simp add: is_callable_append)
  then have "invoke call Original orig this [?g] ?s1
      = (r, \<lparr>heap = h', calls = calls ?s1 @ [(Original, orig, this, [?g])]\<rparr>)"
    using c by (simp add: invoke_callable)
  then have "js_bind (selfless call [arg [f] 0]) (\<lambda>g. invoke call Original orig this [g]) s
      = (r, \<lparr>heap = h', calls = calls s @ [(Original, orig, this, [?g])]\<rparr>)"
    using one by (simp add: js_bind_def arg_def)
  then show ?thesis using assms(1,2)
    by (auto simp: call_function_def actionsWrapper_def viewsWrapper_def)
qed

lemma replace_prop_other:
  "k' \<noteq> k \<Longrightarrow> map_of (replace_prop k d ps) k' = map_of ps k'"
  by (induction ps) auto

lemma js_bind_step: "m s = (Normal x, s') \<Longrightarrow> js_bind m f s = f x s'"
  by (simp add: js_bind_def)

lemma hack_first:
  assumes X: "obj_at (heap s) xa = Some X" and Xp: "obj_proto X = Some pa"
    and absent: "find_prop (length (heap s)) (heap s) xa (KStr ''createStore'') = Normal None"
    and P: "obj_at (heap s) pa = Some P" and ext: "obj_extensible P"
    and act: "map_of (obj_props P) (KStr ''actions'') = Some (DataDesc oa True ea ca)"
    and vw: "map_of (obj_props P) (KStr ''views'') = Some (DataDesc ov True ev cv)"
  shows "\<exists>P3 F1 Q1 F2 Q2 F3 Q3.
      hackObjectTypePrototype call (VRef xa) s
        = (Normal VUndefined, s\<lparr>heap := (heap s)[pa := P3] @ [F1, Q1, F2, Q2, F3, Q3]\<rparr>)
    \<and> obj_proto P3 = obj_proto P \<and> obj_call P3 = obj_call P
    \<and> map_of (obj_props P3) (KStr ''actions'')
        = Some (DataDesc (VRef (length (heap s))) True ea ca)
    \<and> map_of (obj_props P3) (KStr ''views'')
        = Some (DataDesc (VRef (Suc (Suc (length (heap s))))) True ev cv)
    \<and> map_of (obj_props P3) (KStr ''createStore'') \<noteq> None
    \<and> obj_call F1 = Some (ActionsWrapper oa) \<and> obj_call F2 = Some (ViewsWrapper ov)
    \<and> obj_call Q1 = None \<and> obj_call Q2 = None \<and> obj_call Q3 = None
    \<and> obj_call F3 = Some CreateStore"
proof -
  define H where "H = heap s"
  define L where "L = length H"
  define k where "k = KStr ''createStore''"
  have pa: "pa < L" and xa: "xa < L" and Pdef: "P = H ! pa"
    using P X by (auto simp: obj_at_def H_def L_def split: if_splits)
  \<comment> \<open>the guard\<close>
  have st0: "in_operator ''createStore'' (VRef xa) s = (Normal False, s)"
    using absent by (simp add: in_operator_def)
  have st1: "js_read (\<lambda>h. getPrototypeOf h (VRef xa)) s = (Normal (VRef pa), s)"
    using X Xp by (simp add: js_read_def)
  have st2: "get_prop call (VRef pa) ''actions'' s = (Normal oa, s)"
    by (rule get_prop_own_data [OF P act])
  have st3: "get_prop call (VRef pa) ''views'' s = (Normal ov, s)"
    by (rule get_prop_own_data [OF P vw])
  \<comment> \<open>the search for \<open>createStore\<close> from the prototype finds nothing\<close>
  obtain n where n: "L = Suc n" using pa by (cases L) auto
  have noX: "map_of (obj_props X) k = None"
    unfolding k_def by (rule find_prop_None_own [OF absent X])
  have fromP: "find_prop n H pa k = Normal None"
    using absent X Xp noX n by (simp add: H_def L_def k_def)
  have noP: "map_of (obj_props P) k = None"
    using find_prop_None_own [OF fromP] P by (simp add: H_def)
  \<comment> \<open>the wrapper of \<open>actions\<close>\<close>
  obtain F1 Q1 where st4': "make_function (ActionsWrapper oa) [] 1 s
      = (Normal (VRef (length (heap s))), s\<lparr>heap := heap s @ [F1, Q1]\<rparr>)"
    and F1: "obj_call F1 = Some (ActionsWrapper oa)" "obj_call Q1 = None"
    using make_function_result [of "ActionsWrapper oa" "[]" 1 s] by blast
  define sa where "sa = s\<lparr>heap := H @ [F1, Q1]\<rparr>"
  have st4: "make_function (ActionsWrapper oa) [] 1 s = (Normal (VRef L), sa)"
    using st4' by (simp add: sa_def H_def L_def)
  define P1 where "P1 = P\<lparr>obj_props :=
      replace_prop (KStr ''actions'') (DataDesc (VRef L) True ea ca) (obj_props P)\<rparr>"
  define sb where "sb = s\<lparr>heap := H[pa := P1] @ [F1, Q1]\<rparr>"
  have "obj_at (heap sa) pa = Some P"
    using pa Pdef by (simp add: sa_def obj_at_def nth_append L_def)
  from set_prop_own_writable [OF this act, of call "VRef L"]
  have st5: "set_prop call (VRef pa) ''actions'' (VRef L) sa = (Normal (), sb)"
    using pa by (simp add: sa_def sb_def P1_def list_update_append L_def)
  \<comment> \<open>the wrapper of \<open>views\<close>\<close>
  have lb: "length (heap sb) = Suc (Suc L)" by (simp add: sb_def L_def)
  obtain F2 Q2 where st6': "make_function (ViewsWrapper ov) [] 1 sb
      = (Normal (VRef (length (heap sb))), sb\<lparr>heap := heap sb @ [F2, Q2]\<rparr>)"
    and F2: "obj_call F2 = Some (ViewsWrapper ov)" "obj_call Q2 = None"
    using make_function_result [of "ViewsWrapper ov" "[]" 1 sb] by blast
  define sc where "sc = s\<lparr>heap := H[pa := P1] @ [F1, Q1, F2, Q2]\<rparr>"
  have st6: "make_function (ViewsWrapper ov) [] 1 sb = (Normal (VRef (Suc (Suc L))), sc)"
    using st6' lb by (simp add: sb_def sc_def)
  define P2 where "P2 = P1\<lparr>obj_props :=
      replace_prop (KStr ''views'') (DataDesc (VRef (Suc (Suc L))) True ev cv) (obj_props P1)\<rparr>"
  define sd where "sd = s\<lparr>heap := H[pa := P2] @ [F1, Q1, F2, Q2]\<rparr>"
  have vw1: "map_of (obj_props P1) (KStr ''views'') = Some (DataDesc ov True ev cv)"
    using vw by (simp add: P1_def replace_prop_other)
  have "obj_at (heap sc) pa = Some P1"
    using pa by (simp add: sc_def obj_at_def nth_append L_def)
  from set_prop_own_writable [OF this vw1, of call "VRef (Suc (Suc L))"]
  have st7: "set_prop call (VRef pa) ''views'' (VRef (Suc (Suc L))) sc = (Normal (), sd)"
    using pa by (simp add: sc_def sd_def P2_def list_update_append L_def)
  \<comment> \<open>the new entry point \<open>createStore\<close>\<close>
  have ld: "length (heap sd) = Suc (Suc (Suc (Suc L)))" by (simp add: sd_def L_def)
  obtain F3 Q3 where st8': "make_function CreateStore [] 0 sd
      = (Normal (VRef (length (heap sd))), sd\<lparr>heap := heap sd @ [F3, Q3]\<rparr>)"
    and F3: "obj_call F3 = Some CreateStore" "obj_call Q3 = None"
    using make_function_result [of CreateStore "[]" 0 sd] by blast
  define se where "se = s\<lparr>heap := H[pa := P2] @ [F1, Q1, F2, Q2, F3, Q3]\<rparr>"
  have st8: "make_function CreateStore [] 0 sd = (Normal (VRef (Suc (Suc (Suc (Suc L))))), se)"
    using st8' ld by (simp add: sd_def se_def)
  define P3 where "P3 = P2\<lparr>obj_props :=
      obj_props P2 @ [(k, DataDesc (VRef (Suc (Suc (Suc (Suc L))))) True True True)]\<rparr>"
  define sf where "sf = s\<lparr>heap := H[pa := P3] @ [F1, Q1, F2, Q2, F3, Q3]\<rparr>"
  have P2at: "obj_at (heap se) pa = Some P2"
    using pa by (simp add: se_def obj_at_def nth_append L_def)
  have noP2: "map_of (obj_props P2) k = None"
    using noP by (simp add: P2_def P1_def k_def replace_prop_other)
  have P2proto: "obj_proto P2 = obj_proto P" by (simp add: P2_def P1_def)
  have agree: "\<exists>ob'. obj_at (heap se) b = Some ob' \<and> obj_proto ob' = obj_proto ob
         \<and> map_of (obj_props ob') k = map_of (obj_props ob) k"
    if "obj_at H b = Some ob" for b ob
  proof (cases "b = pa")
    case True
    then have "ob = P" using that P by (simp add: H_def)
    then show ?thesis using True P2at noP2 noP P2proto by simp
  next
    case False
    then have "obj_at (heap se) b = Some ob"
      using that by (auto simp: se_def obj_at_def nth_append split: if_splits)
    then show ?thesis by simp
  qed
  have "n \<le> length (heap se)" using n by (simp add: se_def L_def)
  from find_prop_stable [OF fromP agree this]
  have "find_prop (length (heap se)) (heap se) pa (KStr ''createStore'') = Normal None"
    by (simp add: k_def)
  from set_prop_create [OF P2at this, of call "VRef (Suc (Suc (Suc (Suc L))))"]
  have st9: "set_prop call (VRef pa) ''createStore'' (VRef (Suc (Suc (Suc (Suc L))))) se
      = (Normal (), sf)"
    using pa ext by (simp add: se_def sf_def P3_def P2_def P1_def list_update_append L_def k_def)
  have b0: "js_bind (in_operator ''createStore'' (VRef xa)) f s = f False s" for f
    by (simp only: js_bind_def st0 prod.case outcome.case)
  have b1: "js_bind (js_read (\<lambda>h. getPrototypeOf h (VRef xa))) f s = f (VRef pa) s" for f
    by (simp only: js_bind_def st1 prod.case outcome.case)
  have b2: "js_bind (get_prop call (VRef pa) ''actions'') f s = f oa s" for f
    by (simp only: js_bind_def st2 prod.case outcome.case)
  have b3: "js_bind (get_prop call (VRef pa) ''views'') f s = f ov s" for f
    by (simp only: js_bind_def st3 prod.case outcome.case)
  have b4: "js_bind (make_function (ActionsWrapper oa) [] 1) f s = f (VRef L) sa" for f
    by (simp only: js_bind_def st4 prod.case outcome.case)
  have b5: "js_bind (set_prop call (VRef pa) ''actions'' (VRef L)) f sa = f () sb" for f
    by (simp only: js_bind_def st5 prod.case outcome.case)
  have b6: "js_bind (make_function (ViewsWrapper ov) [] 1) f sb = f (VRef (Suc (Suc L))) sc" for f
    by (simp only: js_bind_def st6 prod.case outcome.case)
  have b7: "js_bind (set_prop call (VRef pa) ''views'' (VRef (Suc (Suc L)))) f sc = f () sd" for f
    by (simp only: js_bind_def st7 prod.case outcome.case)
  have b8: "js_bind (make_function CreateStore [] 0) f sd
      = f (VRef (Suc (Suc (Suc (Suc L))))) se" for f
    by (simp only: js_bind_def st8 prod.case outcome.case)
  have b9: "js_bind (set_prop call (VRef pa) ''createStore'' (VRef (Suc (Suc (Suc (Suc L)))))) f se
      = f () sf" for f
    by (simp only: js_bind_def st9 prod.case outcome.case)
  have "hackObjectTypePrototype call (VRef xa) s = (Normal VUndefined, sf)"
    unfolding hackObjectTypePrototype_def
    by (simp only: b0 b1 b2 b3 b4 b5 b6 b7 b8 b9 if_False js_return_def)
  then have run: "hackObjectTypePrototype call (VRef xa) s
      = (Normal VUndefined, s\<lparr>heap := (heap s)[pa := P3] @ [F1, Q1, F2, Q2, F3, Q3]\<rparr>)"
    by (simp add: sf_def H_def)
  have a3: "map_of (obj_props P3) (KStr ''actions'')
      = Some (DataDesc (VRef (length (heap s))) True ea ca)"
    using act by (simp add: P3_def P2_def P1_def k_def replace_prop_other map_of_replace_prop
        L_def H_def)
  have v3: "map_of (obj_props P3) (KStr ''views'')
      = Some (DataDesc (VRef (Suc (Suc (length (heap s))))) True ev cv)"
    using vw1 by (simp add: P3_def P2_def k_def map_of_replace_prop L_def H_def)
  have c3: "map_of (obj_props P3) (KStr ''createStore'') \<noteq> None"
    by (simp add: P3_def k_def)
  have f3: "obj_proto P3 = obj_proto P" "obj_call P3 = obj_call P"
    by (simp_all add: P3_def P2_def P1_def)
  show ?thesis
    using run a3 v3 c3 f3 F1 F2 F3 by blast
qed

lemma is_callable_iff:
  "is_callable h v \<longleftrightarrow> (\<exists>b. v = VRef b \<and> b < length h \<and> obj_call (h ! b) \<noteq> None)"
  by (cases v) (simp_all add: is_callable_def obj_at_def)

lemma hack_skip:
  assumes "in_operator ''createStore'' x s = (Normal True, s)"
  shows "hackObjectTypePrototype call x s = (Normal VUndefined, s)"
  using assms by (simp add: hackObjectTypePrototype_def js_bind_def js_return_def)

text \<open>
  Claim C8. Let \<open>x\<close> be a model type whose prototype is extensible and has \<open>actions\<close> and
  \<open>views\<close> as own writable data properties holding functions, and let \<open>createStore\<close> not be
  found on \<open>x\<close>. The first application of \<open>hackObjectTypePrototype\<close> to \<open>x\<close> returns in a state
  in which the second application returns at its guard and changes nothing. In that state
  the prototype's \<open>actions\<close> and \<open>views\<close> are the wrappers made by the first application, which
  capture the original entry points, and a call of either wrapper calls the original entry
  point it captures once, with the curried function made by \<open>selfless\<close> as the argument.
\<close>

theorem hackObjectTypePrototype_idempotent:
  assumes X: "obj_at (heap s) xa = Some X" and Xp: "obj_proto X = Some pa"
    and absent: "find_prop (length (heap s)) (heap s) xa (KStr ''createStore'') = Normal None"
    and P: "obj_at (heap s) pa = Some P" and ext: "obj_extensible P"
    and act: "map_of (obj_props P) (KStr ''actions'') = Some (DataDesc oa True ea ca)"
    and vw: "map_of (obj_props P) (KStr ''views'') = Some (DataDesc ov True ev cv)"
    and coa: "is_callable (heap s) oa" and cov: "is_callable (heap s) ov"
  shows "\<exists>s1 P1.
      hackObjectTypePrototype call (VRef xa) s = (Normal VUndefined, s1)
    \<and> hackObjectTypePrototype call (VRef xa) s1 = (Normal VUndefined, s1)
    \<and> obj_at (heap s1) pa = Some P1
    \<and> descriptor_of P1 (KStr ''actions'') = Some (DataDesc (VRef (length (heap s))) True ea ca)
    \<and> descriptor_of P1 (KStr ''views'')
        = Some (DataDesc (VRef (Suc (Suc (length (heap s))))) True ev cv)
    \<and> (\<exists>W. obj_at (heap s1) (length (heap s)) = Some W
          \<and> obj_call W = Some (ActionsWrapper oa))
    \<and> (\<exists>W. obj_at (heap s1) (Suc (Suc (length (heap s)))) = Some W
          \<and> obj_call W = Some (ViewsWrapper ov))
    \<and> (\<forall>this f. calls (snd (call_function call (VRef (length (heap s))) this [f] s1))
          = calls s1 @ [(Original, oa, this, [VRef (length (heap s1))])])
    \<and> (\<forall>this f. calls (snd (call_function call (VRef (Suc (Suc (length (heap s))))) this [f] s1))
          = calls s1 @ [(Original, ov, this, [VRef (length (heap s1))])])"
proof -
  define L where "L = length (heap s)"
  obtain P3 F1 Q1 F2 Q2 F3 Q3 where
    run: "hackObjectTypePrototype call (VRef xa) s
        = (Normal VUndefined, s\<lparr>heap := (heap s)[pa := P3] @ [F1, Q1, F2, Q2, F3, Q3]\<rparr>)"
    and P3: "obj_call P3 = obj_call P"
      "map_of (obj_props P3) (KStr ''actions'') = Some (DataDesc (VRef L) True ea ca)"
      "map_of (obj_props P3) (KStr ''views'') = Some (DataDesc (VRef (Suc (Suc L))) True ev cv)"
      "map_of (obj_props P3) (KStr ''createStore'') \<noteq> None"
    and F: "obj_call F1 = Some (ActionsWrapper oa)" "obj_call F2 = Some (ViewsWrapper ov)"
    unfolding L_def using hack_first [OF X Xp absent P ext act vw, of call] by blast
  define s1 where "s1 = s\<lparr>heap := (heap s)[pa := P3] @ [F1, Q1, F2, Q2, F3, Q3]\<rparr>"
  have pa: "pa < L" and xa: "xa < L" and Pdef: "P = heap s ! pa" and Xdef: "X = heap s ! xa"
    using P X by (auto simp: obj_at_def L_def split: if_splits)
  have len: "length (heap s1) = Suc (Suc (Suc (Suc (Suc (Suc L)))))"
    by (simp add: s1_def L_def)
  have P3at: "obj_at (heap s1) pa = Some P3"
    using pa by (simp add: s1_def obj_at_def nth_append L_def)
  have old: "obj_at (heap s1) b = Some (heap s ! b)" if "b < L" "b \<noteq> pa" for b
    using that by (simp add: s1_def obj_at_def nth_append L_def)
  have F1at: "obj_at (heap s1) L = Some F1"
    by (simp add: s1_def obj_at_def nth_append L_def)
  have F2at: "obj_at (heap s1) (Suc (Suc L)) = Some F2"
    by (simp add: s1_def obj_at_def nth_append L_def)
  \<comment> \<open>the guard of the second application\<close>
  obtain d where d: "map_of (obj_props P3) (KStr ''createStore'') = Some d"
    using P3(4) by auto
  have found: "find_prop (length (heap s1)) (heap s1) xa (KStr ''createStore'') = Normal (Some d)"
  proof (cases "xa = pa")
    case True
    have "find_prop (length (heap s1)) (heap s1) pa (KStr ''createStore'') = Normal (Some d)"
      by (rule find_prop_own [OF _ P3at d]) (simp add: len)
    then show ?thesis by (simp only: True)
  next
    case False
    have noX: "map_of (obj_props X) (KStr ''createStore'') = None"
      by (rule find_prop_None_own [OF absent X])
    have "find_prop (Suc (Suc (Suc (Suc (Suc L))))) (heap s1) pa (KStr ''createStore'')
        = Normal (Some d)"
      by (rule find_prop_own [OF _ P3at d]) simp
    then show ?thesis using old [OF xa False] noX Xp Xdef len by simp
  qed
  have guard: "in_operator ''createStore'' (VRef xa) s1 = (Normal True, s1)"
    using found by (simp add: in_operator_def)
  have second: "hackObjectTypePrototype call (VRef xa) s1 = (Normal VUndefined, s1)"
    by (rule hack_skip [OF guard])
  \<comment> \<open>the original entry points are still functions\<close>
  have keep: "is_callable (heap s1) v" if c: "is_callable (heap s) v" for v
  proof -
    obtain b where b: "v = VRef b" "b < L" "obj_call (heap s ! b) \<noteq> None"
      using c unfolding is_callable_iff L_def by blast
    show ?thesis
    proof (cases "b = pa")
      case True
      then show ?thesis using b P3at P3(1) Pdef by (simp add: is_callable_def)
    next
      case False
      then show ?thesis using b old [of b] by (simp add: is_callable_def)
    qed
  qed
  have wa: "calls (snd (call_function call (VRef L) this [f] s1))
      = calls s1 @ [(Original, oa, this, [VRef (length (heap s1))])]" for this f
    by (rule wrapper_calls_original_once [OF F1at _ keep [OF coa]]) (simp add: F(1))
  have wv: "calls (snd (call_function call (VRef (Suc (Suc L))) this [f] s1))
      = calls s1 @ [(Original, ov, this, [VRef (length (heap s1))])]" for this f
    by (rule wrapper_calls_original_once [OF F2at _ keep [OF cov]]) (simp add: F(2))
  show ?thesis
    using run second P3at P3(2,3) F1at F2at F wa wv
    unfolding s1_def [symmetric] L_def [symmetric] descriptor_of_def
    by blast
qed

lemma hack_demo_absent:
  "find_prop (length (heap demo_state)) (heap demo_state) 17 (KStr ''createStore'') = Normal None"
  by code_simp

theorem hackObjectTypePrototype_idempotent_witness:
  "obj_at (heap demo_state) 17 = Some (demo_heap ! 17)
   \<and> obj_proto (demo_heap ! 17) = Some 13
   \<and> find_prop (length (heap demo_state)) (heap demo_state) 17 (KStr ''createStore'') = Normal None
   \<and> obj_at (heap demo_state) 13 = Some (demo_heap ! 13) \<and> obj_extensible (demo_heap ! 13)
   \<and> map_of (obj_props (demo_heap ! 13)) (KStr ''actions'')
       = Some (DataDesc (VRef 14) True False True)
   \<and> map_of (obj_props (demo_heap ! 13)) (KStr ''views'')
       = Some (DataDesc (VRef 15) True False True)
   \<and> is_callable (heap demo_state) (VRef 14) \<and> is_callable (heap demo_state) (VRef 15)
   \<and> (\<exists>s1. hackObjectTypePrototype demo_call (VRef 17) demo_state = (Normal VUndefined, s1)
        \<and> hackObjectTypePrototype demo_call (VRef 17) s1 = (Normal VUndefined, s1)
        \<and> calls (snd (call_function demo_call (VRef 18) (VRef 17) [VRef 10] s1))
            = calls s1 @ [(Original, VRef 14, VRef 17, [VRef (length (heap s1))])])"
proof -
  have X: "obj_at (heap demo_state) 17 = Some (demo_heap ! 17)"
    by (simp add: obj_at_def demo_state_def demo_heap_def)
  have Xp: "obj_proto (demo_heap ! 17) = Some 13"
    by (simp add: demo_heap_def mk_obj_def)
  have P: "obj_at (heap demo_state) 13 = Some (demo_heap ! 13)"
    by (simp add: obj_at_def demo_state_def demo_heap_def)
  have ext: "obj_extensible (demo_heap ! 13)"
    by (simp add: demo_heap_def mk_obj_def)
  have act: "map_of (obj_props (demo_heap ! 13)) (KStr ''actions'')
       = Some (DataDesc (VRef 14) True False True)"
    by (simp add: demo_heap_def mk_obj_def)
  have vw: "map_of (obj_props (demo_heap ! 13)) (KStr ''views'')
       = Some (DataDesc (VRef 15) True False True)"
    by (simp add: demo_heap_def mk_obj_def)
  have coa: "is_callable (heap demo_state) (VRef 14)" by code_simp
  have cov: "is_callable (heap demo_state) (VRef 15)" by code_simp
  from hackObjectTypePrototype_idempotent [OF X Xp hack_demo_absent P ext act vw coa cov,
      of demo_call]
  obtain s1 where "hackObjectTypePrototype demo_call (VRef 17) demo_state = (Normal VUndefined, s1)"
    and "hackObjectTypePrototype demo_call (VRef 17) s1 = (Normal VUndefined, s1)"
    and "\<forall>this f. calls (snd (call_function demo_call (VRef (length (heap demo_state))) this [f] s1))
          = calls s1 @ [(Original, VRef 14, this, [VRef (length (heap s1))])]"
    by blast
  then have "\<exists>s1. hackObjectTypePrototype demo_call (VRef 17) demo_state = (Normal VUndefined, s1)
        \<and> hackObjectTypePrototype demo_call (VRef 17) s1 = (Normal VUndefined, s1)
        \<and> calls (snd (call_function demo_call (VRef 18) (VRef 17) [VRef 10] s1))
            = calls s1 @ [(Original, VRef 14, VRef 17, [VRef (length (heap s1))])]"
    by (auto simp: demo_length)
  then show ?thesis using X Xp hack_demo_absent P ext act vw coa cov by blast
qed

end
